theory Spec2Isabelle
  imports Complex_Main "HOL-Library.AList"
begin

section \<open>Data model\<close>

text \<open>
  The analysers keep their network in a \<^verbatim>\<open>networkx.Graph\<close>. Node identifiers are
  Python integers. Edge weights are Python floats (or the integer \<^verbatim>\<open>0\<close> used as a
  default); they are modelled as exact rationals, so rounding is not represented.

  A Python \<^verbatim>\<open>dict\<close> keeps its keys in insertion order. It is modelled as an
  association list with distinct keys: a lookup is \<^const>\<open>map_of\<close>, an assignment
  \<^verbatim>\<open>d[k] = v\<close> is \<^const>\<open>AList.update\<close> (overwrite in place, or append a new key), and
  \<^verbatim>\<open>del d[k]\<close> is \<^const>\<open>AList.delete\<close>.

  The graph object is its adjacency structure \<^verbatim>\<open>_adj\<close>, a dict from each node to the
  dict of its neighbours with the edge attribute \<^verbatim>\<open>weight\<close>. The node dict
  \<^verbatim>\<open>_node\<close> has the same keys in the same order and carries no attributes here.
\<close>

type_synonym node = int
type_synonym weight = rat
type_synonym graph = "(node \<times> (node \<times> weight) list) list"

datatype error =
    ZeroDivisionError
  | KeyError
  | ValueError
  | NetworkXError
  | NetworkXNoPath
  | NodeNotFound
  | NetworkXPointlessConcept

subsection \<open>Graph operations of the library, as the analysers call them\<close>

definition graph_nodes :: "graph \<Rightarrow> node list" where
  "graph_nodes G = map fst G"

definition has_node :: "graph \<Rightarrow> node \<Rightarrow> bool" where
  "has_node G n = (map_of G n \<noteq> None)"

definition number_of_nodes :: "graph \<Rightarrow> nat" where
  "number_of_nodes G = length G"

text \<open>\<^verbatim>\<open>G._adj[n]\<close> for a node of the graph; the empty dict stands in for a missing
  node, where the callers below never look.\<close>

definition nbrs :: "graph \<Rightarrow> node \<Rightarrow> (node \<times> weight) list" where
  "nbrs G n = (case map_of G n of None \<Rightarrow> [] | Some d \<Rightarrow> d)"

definition neighbors :: "graph \<Rightarrow> node \<Rightarrow> node list" where
  "neighbors G n = map fst (nbrs G n)"

definition has_edge :: "graph \<Rightarrow> node \<Rightarrow> node \<Rightarrow> bool" where
  "has_edge G u v = (map_of (nbrs G u) v \<noteq> None)"

definition edge_weight :: "graph \<Rightarrow> node \<Rightarrow> node \<Rightarrow> weight option" where
  "edge_weight G u v = map_of (nbrs G u) v"

definition add_node :: "graph \<Rightarrow> node \<Rightarrow> graph" where
  "add_node G n = (if has_node G n then G else G @ [(n, [])])"

text \<open>\<^verbatim>\<open>Graph.add_edge(u, v, weight=w)\<close>: both endpoints are created when missing, then
  the attribute is stored under \<^verbatim>\<open>_adj[u][v]\<close> and \<^verbatim>\<open>_adj[v][u]\<close>. There is no check on
  \<^verbatim>\<open>w\<close> and none on \<^verbatim>\<open>u == v\<close>.\<close>

definition add_edge :: "graph \<Rightarrow> node \<Rightarrow> node \<Rightarrow> weight \<Rightarrow> graph" where
  "add_edge G u v w =
     (let G1 = add_node G u;
          G2 = add_node G1 v;
          G3 = AList.update u (AList.update v w (nbrs G2 u)) G2
      in AList.update v (AList.update u w (nbrs G3 v)) G3)"

text \<open>\<^verbatim>\<open>Graph.remove_edge(u, v)\<close> deletes \<^verbatim>\<open>_adj[u][v]\<close> and, unless \<^verbatim>\<open>u == v\<close>,
  \<^verbatim>\<open>_adj[v][u]\<close>; a missing key is reported as \<^verbatim>\<open>NetworkXError\<close>.\<close>

definition remove_edge :: "graph \<Rightarrow> node \<Rightarrow> node \<Rightarrow> error + graph" where
  "remove_edge G u v =
     (if \<not> has_edge G u v then Inl NetworkXError
      else
        let G1 = AList.update u (AList.delete v (nbrs G u)) G
        in if u = v then Inr G1
           else if \<not> has_edge G1 v u then Inl NetworkXError
           else Inr (AList.update v (AList.delete u (nbrs G1 v)) G1))"

text \<open>\<^verbatim>\<open>G.degree()\<close>: the number of neighbours, a self-loop counted twice.\<close>

definition degree :: "graph \<Rightarrow> node \<Rightarrow> int" where
  "degree G n = int (length (nbrs G n)) + (if has_edge G n n then 1 else 0)"

definition degree_view :: "graph \<Rightarrow> (node \<times> int) list" where
  "degree_view G = map (\<lambda>n. (n, degree G n)) (graph_nodes G)"

text \<open>\<^verbatim>\<open>G.edges()\<close>: for each node in order, the neighbours that were not already
  visited as a node; every undirected edge is reported once.\<close>

fun edges_from :: "node list \<Rightarrow> graph \<Rightarrow> (node \<times> node) list" where
  "edges_from seen [] = []"
| "edges_from seen ((n, d) # rest) =
     map (\<lambda>nbr. (n, nbr)) (filter (\<lambda>nbr. nbr \<notin> set seen) (map fst d))
       @ edges_from (n # seen) rest"

definition edges :: "graph \<Rightarrow> (node \<times> node) list" where
  "edges G = edges_from [] G"

section \<open>Loading\<close>

text \<open>
  \<^verbatim>\<open>carregar_dados\<close> is the same in the four analysers. It reads two files; the model
  starts from their parsed lines. A line of \<^verbatim>\<open>brasilia_edge_info.txt\<close> with at least eight
  fields gives \<^verbatim>\<open>(no1, x1, y1, no2, x2, y2, distancia)\<close>; a line of \<^verbatim>\<open>brasilia.net\<close> with
  at least two fields gives \<^verbatim>\<open>(no1, no2)\<close>. Shorter lines are skipped by the source and
  are not part of the lists.
\<close>

record edge_info_line =
  ei_no1 :: node
  ei_x1 :: rat
  ei_y1 :: rat
  ei_no2 :: node
  ei_x2 :: rat
  ei_y2 :: rat
  ei_distancia :: weight

record analisador =
  grafo :: graph
  coordenadas :: "(node \<times> (rat \<times> rat)) list"
  distancias :: "((node \<times> node) \<times> weight) list"

text \<open>\<^verbatim>\<open>tuple(sorted([no1, no2]))\<close>\<close>

definition chave :: "node \<Rightarrow> node \<Rightarrow> node \<times> node" where
  "chave no1 no2 = (min no1 no2, max no1 no2)"

definition ler_edge_info :: "analisador \<Rightarrow> edge_info_line \<Rightarrow> analisador" where
  "ler_edge_info s l =
     s\<lparr>coordenadas :=
          AList.update (ei_no2 l) (ei_x2 l, ei_y2 l)
            (AList.update (ei_no1 l) (ei_x1 l, ei_y1 l) (coordenadas s)),
        distancias :=
          AList.update (chave (ei_no1 l) (ei_no2 l)) (ei_distancia l) (distancias s)\<rparr>"

text \<open>\<^verbatim>\<open>self.distancias.get(chave, 0)\<close>\<close>

definition obter_distancia :: "((node \<times> node) \<times> weight) list \<Rightarrow> node \<Rightarrow> node \<Rightarrow> weight" where
  "obter_distancia ds no1 no2 =
     (case map_of ds (chave no1 no2) of None \<Rightarrow> 0 | Some d \<Rightarrow> d)"

definition ler_net :: "analisador \<Rightarrow> node \<times> node \<Rightarrow> analisador" where
  "ler_net s l =
     (case l of (no1, no2) \<Rightarrow>
        s\<lparr>grafo := add_edge (grafo s) no1 no2 (obter_distancia (distancias s) no1 no2)\<rparr>)"

definition analisador_novo :: analisador where
  "analisador_novo = \<lparr>grafo = [], coordenadas = [], distancias = []\<rparr>"

definition carregar_dados :: "edge_info_line list \<Rightarrow> (node \<times> node) list \<Rightarrow> analisador" where
  "carregar_dados edge_info net =
     fold (\<lambda>l s. ler_net s l) net
       (fold (\<lambda>l s. ler_edge_info s l) edge_info analisador_novo)"

section \<open>Degree centrality\<close>

text \<open>Python's \<^verbatim>\<open>a / b\<close> on integers: a float, or \<^verbatim>\<open>ZeroDivisionError\<close>.\<close>

definition truediv :: "int \<Rightarrow> int \<Rightarrow> error + rat" where
  "truediv a b = (if b = 0 then Inl ZeroDivisionError else Inr (of_int a / of_int b))"

text \<open>A comprehension whose element expression may raise: the first failure ends it.\<close>

fun traverse :: "('a \<Rightarrow> error + 'b) \<Rightarrow> 'a list \<Rightarrow> error + 'b list" where
  "traverse f [] = Inr []"
| "traverse f (x # xs) =
     (case f x of
        Inl e \<Rightarrow> Inl e
      | Inr y \<Rightarrow> (case traverse f xs of Inl e \<Rightarrow> Inl e | Inr ys \<Rightarrow> Inr (y # ys)))"

text \<open>
  The first step of \<^verbatim>\<open>calcular_centralidades\<close>:
  \<^verbatim>\<open>
  graus = dict(self.grafo.degree())
  max_grau = self.grafo.number_of_nodes() - 1
  self.degree_centrality = {no: grau / max_grau for no, grau in graus.items()}
  \<close>
\<close>

definition calcular_degree_centrality :: "graph \<Rightarrow> error + (node \<times> rat) list" where
  "calcular_degree_centrality G =
     (let graus = degree_view G;
          max_grau = int (number_of_nodes G) - 1
      in traverse (\<lambda>(no, grau). case truediv grau max_grau of
                                   Inl e \<Rightarrow> Inl e
                                 | Inr c \<Rightarrow> Inr (no, c)) graus)"

section \<open>Well-formed graphs\<close>

text \<open>
  What every graph built by \<^const>\<open>add_edge\<close> from the empty graph satisfies: node keys
  are distinct, each neighbour dict has distinct keys, every neighbour is a node, and the
  two directions of an edge carry the same weight.
\<close>

definition wf_graph :: "graph \<Rightarrow> bool" where
  "wf_graph G \<longleftrightarrow>
     distinct (map fst G) \<and>
     (\<forall>(n, d) \<in> set G. distinct (map fst d) \<and>
        (\<forall>(m, w) \<in> set d. map_of (nbrs G m) n = Some w))"

definition no_self_loops :: "graph \<Rightarrow> bool" where
  "no_self_loops G \<longleftrightarrow> (\<forall>n \<in> set (graph_nodes G). \<not> has_edge G n n)"

text \<open>Both directions of an edge are stored with weight zero.\<close>

definition zero_edge :: "graph \<Rightarrow> node \<Rightarrow> node \<Rightarrow> bool" where
  "zero_edge G a b \<longleftrightarrow> edge_weight G a b = Some 0 \<and> edge_weight G b a = Some 0"

section \<open>Connected components\<close>

text \<open>
  The library's \<^verbatim>\<open>connected_components\<close> runs a breadth-first search from every node not
  yet seen, in node order; \<^verbatim>\<open>number_connected_components\<close> counts the components.
  \<^verbatim>\<open>fresh\<close> is the inner loop of the search over the neighbours of one node: the
  neighbours not seen so far, in order, each once. The search is modelled with one queue;
  the library's cut at "all nodes seen" is an optimisation that does not change the result.
\<close>


fun fresh :: "node list \<Rightarrow> node list \<Rightarrow> node list" where
  "fresh seen [] = []"
| "fresh seen (w # ws) =
     (if w \<in> set seen then fresh seen ws else w # fresh (seen @ [w]) ws)"

definition all_nbrs :: "graph \<Rightarrow> node set" where
  "all_nbrs G = (\<Union>(n, d) \<in> set G. fst ` set d)"

lemma set_fresh: "set (fresh seen ws) = set ws - set seen"
  by (induction seen ws rule: fresh.induct) auto

lemma distinct_fresh: "distinct (fresh seen ws)"
  by (induction seen ws rule: fresh.induct) (auto simp: set_fresh)

lemma neighbors_all_nbrs: "set (neighbors G v) \<subseteq> all_nbrs G"
proof
  fix w assume "w \<in> set (neighbors G v)"
  then have "w \<in> fst ` set (nbrs G v)" by (simp add: neighbors_def)
  then have "\<exists>d. map_of G v = Some d \<and> w \<in> fst ` set d"
    by (cases "map_of G v") (simp_all add: nbrs_def)
  then obtain d where d: "map_of G v = Some d" "w \<in> fst ` set d" by blast
  then have "(v, d) \<in> set G" by (auto dest: map_of_SomeD)
  with d show "w \<in> all_nbrs G" unfolding all_nbrs_def by blast
qed

lemma finite_all_nbrs: "finite (all_nbrs G)"
  by (auto simp: all_nbrs_def)

function plain_bfs_loop :: "graph \<Rightarrow> node list \<Rightarrow> node list \<Rightarrow> node list" where
  "plain_bfs_loop G seen [] = seen"
| "plain_bfs_loop G seen (v # queue) =
     (let new = fresh seen (neighbors G v)
      in plain_bfs_loop G (seen @ new) (queue @ new))"
  by pat_completeness auto
termination
proof (relation "measures [\<lambda>(G, seen, queue). card (all_nbrs G - set seen),
                          \<lambda>(G, seen, queue). length queue]", goal_cases)
  case 1
  then show ?case by simp
next
  case (2 G seen v queue new)
  show ?case
  proof (cases "new = []")
    case True
    then show ?thesis by simp
  next
    case False
    then obtain w where w: "w \<in> set new" by (cases new) auto
    with 2 have "w \<in> all_nbrs G" "w \<notin> set seen"
      using neighbors_all_nbrs[of G v] by (auto simp: set_fresh)
    then have "all_nbrs G - set (seen @ new) \<subset> all_nbrs G - set seen"
      using w by auto
    then have "card (all_nbrs G - set (seen @ new)) < card (all_nbrs G - set seen)"
      by (intro psubset_card_mono) (auto simp: finite_all_nbrs)
    then show ?thesis by simp
  qed
qed

definition plain_bfs :: "graph \<Rightarrow> node \<Rightarrow> node list" where
  "plain_bfs G source = plain_bfs_loop G [source] [source]"

fun components_loop :: "graph \<Rightarrow> node list \<Rightarrow> node list \<Rightarrow> node list list" where
  "components_loop G seen [] = []"
| "components_loop G seen (v # vs) =
     (if v \<in> set seen then components_loop G seen vs
      else let c = plain_bfs G v in c # components_loop G (seen @ c) vs)"

definition connected_components :: "graph \<Rightarrow> node list list" where
  "connected_components G = components_loop G [] (graph_nodes G)"

definition number_connected_components :: "graph \<Rightarrow> nat" where
  "number_connected_components G = length (connected_components G)"


section \<open>Copy and bridges\<close>

text \<open>
  \<^verbatim>\<open>Graph.copy()\<close> builds a new graph: the nodes in order, then \<^verbatim>\<open>add_edge\<close> for every
  entry of the adjacency structure. The inner order of a neighbour dict may change.

  \<^verbatim>\<open>nx.bridges\<close> is library code. It is modelled by what it reports: the edges of
  \<^verbatim>\<open>G.edges()\<close>, in that order, whose removal leaves their endpoints unconnected (an edge on
  no cycle). The library finds them through a chain decomposition, which is not modelled.
\<close>


definition copy :: "graph \<Rightarrow> graph" where
  "copy G =
     fold (\<lambda>(u, v, w) H. add_edge H u v w)
       (concat (map (\<lambda>(u, d). map (\<lambda>(v, w). (u, v, w)) d) G))
       (map (\<lambda>(n, d). (n, [])) G)"

definition is_bridge :: "graph \<Rightarrow> node \<Rightarrow> node \<Rightarrow> bool" where
  "is_bridge G u v =
     (case remove_edge G u v of Inl e \<Rightarrow> False | Inr G' \<Rightarrow> v \<notin> set (plain_bfs G' u))"

definition bridges :: "graph \<Rightarrow> (node \<times> node) list" where
  "bridges G = filter (\<lambda>(u, v). is_bridge G u v) (edges G)"



text \<open>The entries of the adjacency structure, as \<^verbatim>\<open>copy\<close> iterates them.\<close>


abbreviation triples :: "graph \<Rightarrow> (node \<times> node \<times> weight) list" where
  "triples G \<equiv> concat (map (\<lambda>(u, d). map (\<lambda>(v, w). (u, v, w)) d) G)"


section \<open>Reachability\<close>

definition adjrel :: "graph \<Rightarrow> (node \<times> node) set" where
  "adjrel G = {(a, b). has_edge G a b}"

definition reach :: "graph \<Rightarrow> node \<Rightarrow> node set" where
  "reach G a = (adjrel G)\<^sup>* `` {a}"


section \<open>Shortest paths\<close>

text \<open>Sequencing of computations that may raise: the first error ends the computation.\<close>

definition ebind :: "error + 'a \<Rightarrow> ('a \<Rightarrow> error + 'b) \<Rightarrow> error + 'b" where
  "ebind m f = (case m of Inl e \<Rightarrow> Inl e | Inr x \<Rightarrow> f x)"

text \<open>\<^verbatim>\<open>d[k]\<close> on a dict\<close>

definition lookup :: "('k \<times> 'v) list \<Rightarrow> 'k \<Rightarrow> error + 'v" where
  "lookup d k = (case map_of d k of None \<Rightarrow> Inl KeyError | Some v \<Rightarrow> Inr v)"

text \<open>A for loop whose body may raise, over a state.\<close>

fun efold :: "('a \<Rightarrow> 's \<Rightarrow> error + 's) \<Rightarrow> 'a list \<Rightarrow> 's \<Rightarrow> error + 's" where
  "efold f [] s = Inr s"
| "efold f (x # xs) s = (case f x s of Inl e \<Rightarrow> Inl e | Inr s' \<Rightarrow> efold f xs s')"

text \<open>
  The priority queues of the library are binary heaps of tuples that start with the
  distance and a running counter. \<^verbatim>\<open>heappop\<close> returns the least tuple; the counters are
  distinct, so the least tuple is decided by distance and counter. The queue is modelled
  as the list of its tuples.
\<close>

definition item_less :: "weight \<times> nat \<times> 'a \<Rightarrow> weight \<times> nat \<times> 'a \<Rightarrow> bool" where
  "item_less a b = (fst a < fst b \<or> (fst a = fst b \<and> fst (snd a) < fst (snd b)))"

fun heap_min :: "weight \<times> nat \<times> 'a \<Rightarrow> (weight \<times> nat \<times> 'a) list \<Rightarrow> weight \<times> nat \<times> 'a" where
  "heap_min m [] = m"
| "heap_min m (x # xs) = (if item_less x m then heap_min x xs else heap_min m xs)"

definition heappop ::
  "(weight \<times> nat \<times> 'a) list \<Rightarrow> ((weight \<times> nat \<times> 'a) \<times> (weight \<times> nat \<times> 'a) list) option" where
  "heappop q = (case q of [] \<Rightarrow> None | x # xs \<Rightarrow> (let m = heap_min x xs in Some (m, remove1 m q)))"

text \<open>
  \<^verbatim>\<open>_dijkstra_multisource(G, [source], weight, target=target)\<close>: the state of its while
  loop is the dict of final distances, the dict of seen distances, the fringe and the
  counter. An edge to a finished node that would shorten its distance raises
  \<^verbatim>\<open>ValueError\<close> ("Contradictory paths found: negative weights?").
\<close>

record dijkstra_state =
  dj_dist :: "(node \<times> weight) list"
  dj_seen :: "(node \<times> weight) list"
  dj_fringe :: "(weight \<times> nat \<times> node) list"
  dj_count :: nat

definition dj_push :: "weight \<Rightarrow> node \<Rightarrow> dijkstra_state \<Rightarrow> dijkstra_state" where
  "dj_push d u st =
     st\<lparr>dj_seen := AList.update u d (dj_seen st),
        dj_fringe := dj_fringe st @ [(d, dj_count st, u)],
        dj_count := Suc (dj_count st)\<rparr>"

definition dj_relax :: "weight \<Rightarrow> node \<times> weight \<Rightarrow> dijkstra_state \<Rightarrow> error + dijkstra_state" where
  "dj_relax dv e st =
     (case e of (u, cost) \<Rightarrow>
        let vu_dist = dv + cost in
        case map_of (dj_dist st) u of
          Some u_dist \<Rightarrow> if vu_dist < u_dist then Inl ValueError else Inr st
        | None \<Rightarrow>
           (case map_of (dj_seen st) u of
              None \<Rightarrow> Inr (dj_push vu_dist u st)
            | Some s \<Rightarrow> if vu_dist < s then Inr (dj_push vu_dist u st) else Inr st))"

text \<open>One turn of the while loop: Inl is the end of the loop (a result or an error),
  Inr the state for the next turn.\<close>

definition dj_step ::
  "graph \<Rightarrow> node option \<Rightarrow> dijkstra_state \<Rightarrow> (error + (node \<times> weight) list) + dijkstra_state" where
  "dj_step G target st =
     (case heappop (dj_fringe st) of
        None \<Rightarrow> Inl (Inr (dj_dist st))
      | Some ((d, c, v), rest) \<Rightarrow>
          if map_of (dj_dist st) v \<noteq> None then Inr (st\<lparr>dj_fringe := rest\<rparr>)
          else
            let st1 = st\<lparr>dj_fringe := rest, dj_dist := dj_dist st @ [(v, d)]\<rparr> in
            if Some v = target then Inl (Inr (dj_dist st1))
            else (case efold (dj_relax d) (nbrs G v) st1 of
                    Inl e \<Rightarrow> Inl (Inl e)
                  | Inr st2 \<Rightarrow> Inr st2))"

definition fringe_nodes :: "(weight \<times> nat \<times> node) list \<Rightarrow> node set" where
  "fringe_nodes q = (\<lambda>x. snd (snd x)) ` set q"

definition dj_pending :: "graph \<Rightarrow> dijkstra_state \<Rightarrow> node set" where
  "dj_pending G st =
     (all_nbrs G \<union> fringe_nodes (dj_fringe st)) - fst ` set (dj_dist st)"

lemma heap_min_mem: "heap_min m xs \<in> set (m # xs)"
  by (induction m xs rule: heap_min.induct) auto

lemma heappop_Some:
  assumes "heappop q = Some (m, rest)"
  shows "m \<in> set q" and "length rest < length q" and "set rest \<subseteq> set q"
proof -
  from assms obtain x xs where q: "q = x # xs" and m: "m = heap_min x xs" and r: "rest = remove1 m q"
    by (cases q) (auto simp: heappop_def Let_def simp del: remove1.simps)
  show m_in: "m \<in> set q" using heap_min_mem[of x xs] q m by simp
  have "length rest = length q - 1" unfolding r using m_in by (simp add: length_remove1)
  then show "length rest < length q" using q by simp
  show "set rest \<subseteq> set q" unfolding r by (rule set_remove1_subset)
qed

lemma dj_relax_props:
  assumes "dj_relax dv e st = Inr st'"
  shows "dj_dist st' = dj_dist st"
    and "fringe_nodes (dj_fringe st') \<subseteq> fringe_nodes (dj_fringe st) \<union> {fst e}"
proof -
  obtain u cost where e: "e = (u, cost)" by (cases e)
  have "st' = st \<or> st' = dj_push (dv + cost) u st"
    using assms unfolding e dj_relax_def Let_def
    by (simp split: option.splits if_splits)
  then show "dj_dist st' = dj_dist st"
    and "fringe_nodes (dj_fringe st') \<subseteq> fringe_nodes (dj_fringe st) \<union> {fst e}"
    unfolding e by (auto simp: dj_push_def fringe_nodes_def)
qed

lemma efold_dj_relax_props:
  assumes "efold (dj_relax dv) es st = Inr st'"
  shows "dj_dist st' = dj_dist st \<and>
    fringe_nodes (dj_fringe st') \<subseteq> fringe_nodes (dj_fringe st) \<union> fst ` set es"
  using assms
proof (induction es arbitrary: st)
  case Nil
  then show ?case by simp
next
  case (Cons e es)
  from Cons.prems obtain st1 where s1: "dj_relax dv e st = Inr st1" and r: "efold (dj_relax dv) es st1 = Inr st'"
    by (cases "dj_relax dv e st") simp_all
  note p = dj_relax_props[OF s1] and ih = Cons.IH[OF r]
  show ?case
  proof
    show "dj_dist st' = dj_dist st" using p(1) ih by simp
    show "fringe_nodes (dj_fringe st') \<subseteq> fringe_nodes (dj_fringe st) \<union> fst ` set (e # es)"
      using p(2) ih by (simp del: fringe_nodes_def) blast
  qed
qed

lemma nbrs_all_nbrs: "fst ` set (nbrs G v) \<subseteq> all_nbrs G"
  using neighbors_all_nbrs[of G v] by (simp add: neighbors_def)

lemma dj_step_decreases:
  assumes "dj_step G target st = Inr st'"
  shows "(st', st) \<in> measures [\<lambda>st. card (dj_pending G st), \<lambda>st. length (dj_fringe st)]"
proof -
  from assms obtain d c v rest where pop: "heappop (dj_fringe st) = Some ((d, c, v), rest)"
    by (cases "heappop (dj_fringe st)") (auto simp: dj_step_def)
  note hp = heappop_Some[OF pop]
  have fin: "finite (dj_pending G st)" by (simp add: dj_pending_def finite_all_nbrs fringe_nodes_def)
  show ?thesis
  proof (cases "map_of (dj_dist st) v \<noteq> None")
    case True
    then have st': "st' = st\<lparr>dj_fringe := rest\<rparr>" using assms pop by (simp add: dj_step_def)
    have "fringe_nodes rest \<subseteq> fringe_nodes (dj_fringe st)"
      using hp(3) unfolding fringe_nodes_def by (rule image_mono)
    then have "dj_pending G st' \<subseteq> dj_pending G st" unfolding st' dj_pending_def by auto
    then have "card (dj_pending G st') \<le> card (dj_pending G st)" using fin by (rule card_mono[rotated])
    moreover have "length (dj_fringe st') < length (dj_fringe st)" unfolding st' using hp(2) by simp
    ultimately show ?thesis by auto
  next
    case False
    let ?st1 = "st\<lparr>dj_fringe := rest, dj_dist := dj_dist st @ [(v, d)]\<rparr>"
    from False assms pop have r: "efold (dj_relax d) (nbrs G v) ?st1 = Inr st'"
      by (auto simp: dj_step_def Let_def split: if_splits sum.splits)
    note p = efold_dj_relax_props[OF r]
    have vfr: "v \<in> fringe_nodes (dj_fringe st)" using hp(1) unfolding fringe_nodes_def by force
    have rsub: "fringe_nodes rest \<subseteq> fringe_nodes (dj_fringe st)"
      using hp(3) unfolding fringe_nodes_def by (rule image_mono)
    have vnd: "v \<notin> fst ` set (dj_dist st)" using False by (simp add: map_of_eq_None_iff)
    have "v \<in> dj_pending G st" using vfr vnd by (simp add: dj_pending_def)
    moreover have "v \<notin> dj_pending G st'" using p by (simp add: dj_pending_def)
    moreover have "dj_pending G st' \<subseteq> dj_pending G st"
    proof
      fix x assume x: "x \<in> dj_pending G st'"
      then have "x \<notin> fst ` set (dj_dist st)" using p by (auto simp: dj_pending_def)
      moreover have "x \<in> all_nbrs G \<union> fringe_nodes (dj_fringe st)"
      proof -
        from x have "x \<in> all_nbrs G \<or> x \<in> fringe_nodes (dj_fringe st')"
          by (auto simp: dj_pending_def)
        then show ?thesis
        proof
          assume "x \<in> all_nbrs G" then show ?thesis by simp
        next
          assume "x \<in> fringe_nodes (dj_fringe st')"
          with p have "x \<in> fringe_nodes rest \<union> fst ` set (nbrs G v)" by auto
          then show ?thesis using rsub nbrs_all_nbrs[of G v] by blast
        qed
      qed
      ultimately show "x \<in> dj_pending G st" by (simp add: dj_pending_def)
    qed
    ultimately have "dj_pending G st' \<subset> dj_pending G st" by blast
    then have "card (dj_pending G st') < card (dj_pending G st)" using fin by (rule psubset_card_mono[rotated])
    then show ?thesis by simp
  qed
qed

function dj_loop :: "graph \<Rightarrow> node option \<Rightarrow> dijkstra_state \<Rightarrow> error + (node \<times> weight) list" where
  "dj_loop G target st =
     (case dj_step G target st of Inl r \<Rightarrow> r | Inr st' \<Rightarrow> dj_loop G target st')"
  by pat_completeness auto
termination
proof (relation "inv_image (measures [\<lambda>st. card (dj_pending (fst st) (snd st)), \<lambda>st. length (dj_fringe (snd st))]) (\<lambda>(G, t, st). (G, st))", goal_cases)
  case 1
  then show ?case by simp
next
  case (2 G target st st')
  then show ?case using dj_step_decreases[of G target st st'] by simp
qed

text \<open>\<^verbatim>\<open>_dijkstra_multisource\<close> from one source\<close>
definition dijkstra :: "graph \<Rightarrow> node \<Rightarrow> node option \<Rightarrow> error + (node \<times> weight) list" where
  "dijkstra G source target =
     dj_loop G target \<lparr>dj_dist = [], dj_seen = [(source, 0)], dj_fringe = [(0, 0, source)], dj_count = 1\<rparr>"

text \<open>\<^verbatim>\<open>nx.shortest_path_length(G, source, target, weight='weight')\<close>\<close>

definition shortest_path_length :: "graph \<Rightarrow> node \<Rightarrow> node \<Rightarrow> error + weight" where
  "shortest_path_length G source target =
     (if \<not> has_node G source then Inl NodeNotFound
      else if source = target then Inr 0
      else case dijkstra G source (Some target) of
             Inl e \<Rightarrow> Inl e
           | Inr lengths \<Rightarrow>
               (case map_of lengths target of None \<Rightarrow> Inl NetworkXNoPath | Some d \<Rightarrow> Inr d))"

section \<open>Betweenness and closeness\<close>

text \<open>
  \<^verbatim>\<open>_single_source_dijkstra_path_basic\<close>, the shortest-path counting of Brandes'
  algorithm: S is the order in which nodes are finished, P the predecessor lists, sigma
  the path counts, D the final distances, Q the heap of (distance, counter, pred, node).
\<close>

record brandes_state =
  bs_S :: "node list"
  bs_P :: "(node \<times> node list) list"
  bs_sigma :: "(node \<times> rat) list"
  bs_D :: "(node \<times> weight) list"
  bs_seen :: "(node \<times> weight) list"
  bs_Q :: "(weight \<times> nat \<times> node \<times> node) list"
  bs_count :: nat

definition bs_relax :: "weight \<Rightarrow> node \<Rightarrow> node \<times> weight \<Rightarrow> brandes_state \<Rightarrow> error + brandes_state" where
  "bs_relax dv v e st =
     (case e of (w, cost) \<Rightarrow>
        let vw_dist = dv + cost in
        if map_of (bs_D st) w = None \<and>
           (case map_of (bs_seen st) w of None \<Rightarrow> True | Some s \<Rightarrow> vw_dist < s)
        then Inr (st\<lparr>bs_seen := AList.update w vw_dist (bs_seen st),
                     bs_Q := bs_Q st @ [(vw_dist, bs_count st, v, w)],
                     bs_count := Suc (bs_count st),
                     bs_sigma := AList.update w 0 (bs_sigma st),
                     bs_P := AList.update w [v] (bs_P st)\<rparr>)
        else
          ebind (lookup (bs_seen st) w) (\<lambda>s.
            if vw_dist = s then
              ebind (lookup (bs_sigma st) w) (\<lambda>sw.
              ebind (lookup (bs_sigma st) v) (\<lambda>sv.
              ebind (lookup (bs_P st) w) (\<lambda>pw.
                Inr (st\<lparr>bs_sigma := AList.update w (sw + sv) (bs_sigma st),
                         bs_P := AList.update w (pw @ [v]) (bs_P st)\<rparr>))))
            else Inr st))"

definition bs_step ::
  "graph \<Rightarrow> brandes_state \<Rightarrow> (error + brandes_state) + brandes_state" where
  "bs_step G st =
     (case heappop (bs_Q st) of
        None \<Rightarrow> Inl (Inr st)
      | Some ((d, c, pred, v), rest) \<Rightarrow>
          if map_of (bs_D st) v \<noteq> None then Inr (st\<lparr>bs_Q := rest\<rparr>)
          else
            (case ebind (lookup (bs_sigma st) v) (\<lambda>sv.
                  ebind (lookup (bs_sigma st) pred) (\<lambda>sp.
                  efold (bs_relax d v) (nbrs G v)
                    (st\<lparr>bs_Q := rest,
                        bs_sigma := AList.update v (sv + sp) (bs_sigma st),
                        bs_S := bs_S st @ [v],
                        bs_D := bs_D st @ [(v, d)]\<rparr>))) of
               Inl e \<Rightarrow> Inl (Inl e)
             | Inr st2 \<Rightarrow> Inr st2))"

definition queue_nodes :: "(weight \<times> nat \<times> node \<times> node) list \<Rightarrow> node set" where
  "queue_nodes q = (\<lambda>x. snd (snd (snd x))) ` set q"

definition bs_pending :: "graph \<Rightarrow> brandes_state \<Rightarrow> node set" where
  "bs_pending G st = (all_nbrs G \<union> queue_nodes (bs_Q st)) - fst ` set (bs_D st)"

lemma bs_relax_props:
  assumes "bs_relax dv v e st = Inr st'"
  shows "bs_D st' = bs_D st"
    and "queue_nodes (bs_Q st') \<subseteq> queue_nodes (bs_Q st) \<union> {fst e}"
proof -
  obtain w cost where e: "e = (w, cost)" by (cases e)
  have "bs_D st' = bs_D st \<and> (bs_Q st' = bs_Q st \<or> bs_Q st' = bs_Q st @ [(dv + cost, bs_count st, v, w)])"
    using assms unfolding e bs_relax_def Let_def ebind_def lookup_def
    by (auto split: option.splits if_splits)
  then show "bs_D st' = bs_D st"
    and "queue_nodes (bs_Q st') \<subseteq> queue_nodes (bs_Q st) \<union> {fst e}"
    unfolding e by (auto simp: queue_nodes_def)
qed

lemma efold_bs_relax_props:
  assumes "efold (bs_relax dv v) es st = Inr st'"
  shows "bs_D st' = bs_D st \<and>
    queue_nodes (bs_Q st') \<subseteq> queue_nodes (bs_Q st) \<union> fst ` set es"
  using assms
proof (induction es arbitrary: st)
  case Nil
  then show ?case by simp
next
  case (Cons e es)
  from Cons.prems obtain st1 where s1: "bs_relax dv v e st = Inr st1" and r: "efold (bs_relax dv v) es st1 = Inr st'"
    by (cases "bs_relax dv v e st") simp_all
  note p = bs_relax_props[OF s1] and ih = Cons.IH[OF r]
  show ?case
  proof
    show "bs_D st' = bs_D st" using p(1) ih by simp
    show "queue_nodes (bs_Q st') \<subseteq> queue_nodes (bs_Q st) \<union> fst ` set (e # es)"
      using p(2) ih by (simp del: queue_nodes_def) blast
  qed
qed

lemma bs_step_decreases:
  assumes "bs_step G st = Inr st'"
  shows "(st', st) \<in> measures [\<lambda>st. card (bs_pending G st), \<lambda>st. length (bs_Q st)]"
proof -
  from assms obtain d c pred v rest where pop: "heappop (bs_Q st) = Some ((d, c, pred, v), rest)"
    by (cases "heappop (bs_Q st)") (auto simp: bs_step_def)
  note hp = heappop_Some[OF pop]
  have fin: "finite (bs_pending G st)" by (simp add: bs_pending_def finite_all_nbrs queue_nodes_def)
  have rsub: "queue_nodes rest \<subseteq> queue_nodes (bs_Q st)"
    using hp(3) unfolding queue_nodes_def by (rule image_mono)
  show ?thesis
  proof (cases "map_of (bs_D st) v \<noteq> None")
    case True
    then have st': "st' = st\<lparr>bs_Q := rest\<rparr>" using assms pop by (simp add: bs_step_def)
    have "bs_pending G st' \<subseteq> bs_pending G st" unfolding st' bs_pending_def using rsub by auto
    then have "card (bs_pending G st') \<le> card (bs_pending G st)" using fin by (rule card_mono[rotated])
    moreover have "length (bs_Q st') < length (bs_Q st)" unfolding st' using hp(2) by simp
    ultimately show ?thesis by auto
  next
    case False
    from False assms pop obtain sv sp where
      r: "efold (bs_relax d v) (nbrs G v)
            (st\<lparr>bs_Q := rest, bs_sigma := AList.update v (sv + sp) (bs_sigma st),
                bs_S := bs_S st @ [v], bs_D := bs_D st @ [(v, d)]\<rparr>) = Inr st'"
      by (auto simp: bs_step_def ebind_def split: if_splits sum.splits)
    note p = efold_bs_relax_props[OF r]
    have vfr: "v \<in> queue_nodes (bs_Q st)" using hp(1) unfolding queue_nodes_def by force
    have vnd: "v \<notin> fst ` set (bs_D st)" using False by (simp add: map_of_eq_None_iff)
    have "v \<in> bs_pending G st" using vfr vnd by (simp add: bs_pending_def)
    moreover have "v \<notin> bs_pending G st'" using p by (simp add: bs_pending_def)
    moreover have "bs_pending G st' \<subseteq> bs_pending G st"
    proof
      fix x assume x: "x \<in> bs_pending G st'"
      then have "x \<notin> fst ` set (bs_D st)" using p by (auto simp: bs_pending_def)
      moreover have "x \<in> all_nbrs G \<union> queue_nodes (bs_Q st)"
      proof -
        from x have "x \<in> all_nbrs G \<or> x \<in> queue_nodes (bs_Q st')"
          by (auto simp: bs_pending_def)
        then show ?thesis
        proof
          assume "x \<in> all_nbrs G" then show ?thesis by simp
        next
          assume "x \<in> queue_nodes (bs_Q st')"
          with p have "x \<in> queue_nodes rest \<union> fst ` set (nbrs G v)" by auto
          then show ?thesis using rsub nbrs_all_nbrs[of G v] by blast
        qed
      qed
      ultimately show "x \<in> bs_pending G st" by (simp add: bs_pending_def)
    qed
    ultimately have "bs_pending G st' \<subset> bs_pending G st" by blast
    then have "card (bs_pending G st') < card (bs_pending G st)" using fin by (rule psubset_card_mono[rotated])
    then show ?thesis by simp
  qed
qed

function bs_loop :: "graph \<Rightarrow> brandes_state \<Rightarrow> error + brandes_state" where
  "bs_loop G st = (case bs_step G st of Inl r \<Rightarrow> r | Inr st' \<Rightarrow> bs_loop G st')"
  by pat_completeness auto
termination
proof (relation "inv_image (measures [\<lambda>p. card (bs_pending (fst p) (snd p)), \<lambda>p. length (bs_Q (snd p))]) (\<lambda>(G, st). (G, st))", goal_cases)
  case 1
  then show ?case by simp
next
  case (2 G st st')
  then show ?case using bs_step_decreases[of G st st'] by simp
qed

text \<open>\<^verbatim>\<open>_single_source_dijkstra_path_basic(G, s, weight)\<close> returns S, P and sigma.\<close>

definition single_source_dijkstra_path_basic :: "graph \<Rightarrow> node \<Rightarrow> error + brandes_state" where
  "single_source_dijkstra_path_basic G s =
     bs_loop G \<lparr>bs_S = [],
               bs_P = map (\<lambda>v. (v, [])) (graph_nodes G),
               bs_sigma = AList.update s 1 (map (\<lambda>v. (v, 0)) (graph_nodes G)),
               bs_D = [],
               bs_seen = [(s, 0)],
               bs_Q = [(0, 0, s, s)],
               bs_count = 1\<rparr>"

text \<open>Python's float division.\<close>
definition fdiv :: "rat \<Rightarrow> rat \<Rightarrow> error + rat" where
  "fdiv a b = (if b = 0 then Inl ZeroDivisionError else Inr (a / b))"

text \<open>\<^verbatim>\<open>d[k] += c\<close> on a dict: the key must exist.\<close>
definition dict_add :: "('k \<times> rat) list \<Rightarrow> 'k \<Rightarrow> rat \<Rightarrow> error + ('k \<times> rat) list" where
  "dict_add d k c = ebind (lookup d k) (\<lambda>x. Inr (AList.update k (x + c) d))"

record betweenness_acc =
  node_b :: "(node \<times> rat) list"
  edge_b :: "((node \<times> node) \<times> rat) list"
  delta :: "(node \<times> rat) list"

definition acc_edge_pred ::
  "(node \<times> rat) list \<Rightarrow> node \<Rightarrow> rat \<Rightarrow> node \<Rightarrow> betweenness_acc \<Rightarrow> error + betweenness_acc" where
  "acc_edge_pred sigma w coeff v b =
     ebind (lookup sigma v) (\<lambda>sv.
       let c = sv * coeff in
       ebind (if map_of (edge_b b) (v, w) = None
              then dict_add (edge_b b) (w, v) c
              else dict_add (edge_b b) (v, w) c) (\<lambda>eb.
       ebind (dict_add (delta b) v c) (\<lambda>dl.
         Inr (b\<lparr>edge_b := eb, delta := dl\<rparr>))))"

definition acc_edges_node ::
  "(node \<times> node list) list \<Rightarrow> (node \<times> rat) list \<Rightarrow> node \<Rightarrow> node \<Rightarrow> betweenness_acc
     \<Rightarrow> error + betweenness_acc" where
  "acc_edges_node P sigma s w b =
     ebind (lookup (delta b) w) (\<lambda>dw.
     ebind (lookup sigma w) (\<lambda>sw.
     ebind (fdiv (1 + dw) sw) (\<lambda>coeff.
     ebind (lookup P w) (\<lambda>pw.
     ebind (efold (acc_edge_pred sigma w coeff) pw b) (\<lambda>b1.
       if w \<noteq> s then
         ebind (lookup (delta b1) w) (\<lambda>dw1.
         ebind (dict_add (node_b b1) w dw1) (\<lambda>nb. Inr (b1\<lparr>node_b := nb\<rparr>)))
       else Inr b1)))))"

text \<open>\<^verbatim>\<open>_accumulate_edges(betweenness, S, P, sigma, s)\<close>: S is consumed from its end.\<close>
definition accumulate_edges ::
  "betweenness_acc \<Rightarrow> brandes_state \<Rightarrow> node \<Rightarrow> error + betweenness_acc" where
  "accumulate_edges b st s =
     efold (acc_edges_node (bs_P st) (bs_sigma st) s) (rev (bs_S st))
       (b\<lparr>delta := map (\<lambda>v. (v, 0)) (bs_S st)\<rparr>)"

definition acc_basic_pred ::
  "(node \<times> rat) list \<Rightarrow> rat \<Rightarrow> node \<Rightarrow> betweenness_acc \<Rightarrow> error + betweenness_acc" where
  "acc_basic_pred sigma coeff v b =
     ebind (lookup sigma v) (\<lambda>sv.
     ebind (dict_add (delta b) v (sv * coeff)) (\<lambda>dl. Inr (b\<lparr>delta := dl\<rparr>)))"

definition acc_basic_node ::
  "(node \<times> node list) list \<Rightarrow> (node \<times> rat) list \<Rightarrow> node \<Rightarrow> node \<Rightarrow> betweenness_acc
     \<Rightarrow> error + betweenness_acc" where
  "acc_basic_node P sigma s w b =
     ebind (lookup (delta b) w) (\<lambda>dw.
     ebind (lookup sigma w) (\<lambda>sw.
     ebind (fdiv (1 + dw) sw) (\<lambda>coeff.
     ebind (lookup P w) (\<lambda>pw.
     ebind (efold (acc_basic_pred sigma coeff) pw b) (\<lambda>b1.
       if w \<noteq> s then
         ebind (lookup (delta b1) w) (\<lambda>dw1.
         ebind (dict_add (node_b b1) w dw1) (\<lambda>nb. Inr (b1\<lparr>node_b := nb\<rparr>)))
       else Inr b1)))))"

definition accumulate_basic ::
  "betweenness_acc \<Rightarrow> brandes_state \<Rightarrow> node \<Rightarrow> error + betweenness_acc" where
  "accumulate_basic b st s =
     efold (acc_basic_node (bs_P st) (bs_sigma st) s) (rev (bs_S st))
       (b\<lparr>delta := map (\<lambda>v. (v, 0)) (bs_S st)\<rparr>)"

definition scale_values :: "rat option \<Rightarrow> ('k \<times> rat) list \<Rightarrow> ('k \<times> rat) list" where
  "scale_values scale b =
     (case scale of None \<Rightarrow> b | Some c \<Rightarrow> map (\<lambda>(k, x). (k, x * c)) b)"

text \<open>
  \<^verbatim>\<open>_rescale_e\<close> and \<^verbatim>\<open>_rescale\<close> for an undirected graph, no sampling, no endpoints
  and \<^verbatim>\<open>normalized=True\<close>, which is how every call of the analysers reaches them: the
  scale is \<^verbatim>\<open>1 / (n * (n - 1))\<close> for edges and \<^verbatim>\<open>1 / ((n - 1) * (n - 2))\<close> for nodes,
  and each value is multiplied by it; on too small a graph the values are left as they are.
\<close>

definition rescale_e :: "((node \<times> node) \<times> rat) list \<Rightarrow> nat \<Rightarrow> ((node \<times> node) \<times> rat) list" where
  "rescale_e b n =
     scale_values (if n \<le> 1 then None else Some (1 / (of_nat n * (of_nat n - 1)))) b"

definition rescale :: "(node \<times> rat) list \<Rightarrow> nat \<Rightarrow> (node \<times> rat) list" where
  "rescale b n =
     scale_values (if n \<le> 2 then None else Some (1 / ((of_nat n - 1) * (of_nat n - 2)))) b"

definition betweenness_init :: "graph \<Rightarrow> betweenness_acc" where
  "betweenness_init G =
     \<lparr>node_b = map (\<lambda>v. (v, 0)) (graph_nodes G),
      edge_b = map (\<lambda>e. (e, 0)) (edges G),
      delta = []\<rparr>"

text \<open>The loop over all sources of \<^verbatim>\<open>edge_betweenness_centrality\<close>, before rescaling.\<close>
definition edge_betweenness_accumulation :: "graph \<Rightarrow> error + ((node \<times> node) \<times> rat) list" where
  "edge_betweenness_accumulation G =
     ebind (efold (\<lambda>s b. ebind (single_source_dijkstra_path_basic G s) (\<lambda>st. accumulate_edges b st s))
              (graph_nodes G) (betweenness_init G))
       (\<lambda>b. Inr (edge_b b))"

text \<open>\<^verbatim>\<open>nx.edge_betweenness_centrality(G, weight='weight')\<close>; \<^verbatim>\<open>normalized\<close> is True by
  default and in the one call that passes it.\<close>
definition edge_betweenness_centrality :: "graph \<Rightarrow> error + ((node \<times> node) \<times> rat) list" where
  "edge_betweenness_centrality G =
     ebind (edge_betweenness_accumulation G) (\<lambda>b. Inr (rescale_e b (number_of_nodes G)))"

text \<open>\<^verbatim>\<open>nx.betweenness_centrality(G, weight='weight', normalized=True)\<close>\<close>
definition betweenness_centrality :: "graph \<Rightarrow> error + (node \<times> rat) list" where
  "betweenness_centrality G =
     ebind (efold (\<lambda>s b. ebind (single_source_dijkstra_path_basic G s) (\<lambda>st. accumulate_basic b st s))
              (graph_nodes G) ((betweenness_init G)\<lparr>edge_b := []\<rparr>))
       (\<lambda>b. Inr (rescale (node_b b) (number_of_nodes G)))"

text \<open>\<^verbatim>\<open>closeness_centrality(G, distance='weight')\<close> with the default
  \<^verbatim>\<open>wf_improved=True\<close>.\<close>
definition closeness_of :: "graph \<Rightarrow> node \<Rightarrow> error + rat" where
  "closeness_of G n =
     ebind (dijkstra G n None) (\<lambda>sp.
       let totsp = sum_list (map snd sp);
           len_G = number_of_nodes G
       in if totsp > 0 \<and> len_G > 1
          then Inr (((of_nat (length sp) - 1) / totsp) * ((of_nat (length sp) - 1) / (of_nat len_G - 1)))
          else Inr 0)"

definition closeness_centrality :: "graph \<Rightarrow> error + (node \<times> rat) list" where
  "closeness_centrality G =
     traverse (\<lambda>n. ebind (closeness_of G n) (\<lambda>c. Inr (n, c))) (graph_nodes G)"

record analisador_centralidades = analisador +
  degree_centrality :: "(node \<times> rat) list"
  betweenness_centrality_r :: "(node \<times> rat) list"
  closeness_centrality_r :: "(node \<times> rat) list"
  edge_betweenness_centrality_r :: "((node \<times> node) \<times> rat) list"

definition calcular_centralidades :: "analisador_centralidades \<Rightarrow> error + analisador_centralidades" where
  "calcular_centralidades s =
     ebind (calcular_degree_centrality (grafo s)) (\<lambda>dc.
     ebind (betweenness_centrality (grafo s)) (\<lambda>bc.
     ebind (closeness_centrality (grafo s)) (\<lambda>cc.
     ebind (edge_betweenness_centrality (grafo s)) (\<lambda>ebc.
       Inr (s\<lparr>degree_centrality := dc, betweenness_centrality_r := bc,
               closeness_centrality_r := cc, edge_betweenness_centrality_r := ebc\<rparr>)))))"

section \<open>Impact simulation\<close>

text \<open>
  \<^verbatim>\<open>simular_remocao_ponte\<close> mutates a graph object, so graph objects live in a store and
  \<^verbatim>\<open>self.grafo\<close> is an address in it. \<^verbatim>\<open>copy()\<close> allocates a new object;
  \<^verbatim>\<open>remove_edge\<close> updates the object at an address (when its second deletion fails, the
  first has already happened). \<^verbatim>\<open>top_n\<close> is taken as a natural number. Printing is not
  modelled.
\<close>

type_synonym store = "graph list"

record resultado =
  aresta :: "node \<times> node"
  distancia :: weight
  edge_betweenness :: rat
  componentes_antes :: nat
  componentes_depois :: nat
  is_conexo_antes :: bool
  is_conexo_depois :: bool
  tamanhos_componentes :: "nat list"
  nos_isolados :: "node list"
  aumentos_distancia :: "rat list"
  pares_desconectados :: nat

definition store_copy :: "store \<Rightarrow> nat \<Rightarrow> nat \<times> store" where
  "store_copy h r = (length h, h @ [copy (h ! r)])"

definition store_remove_edge :: "store \<Rightarrow> nat \<Rightarrow> node \<Rightarrow> node \<Rightarrow> error option \<times> store" where
  "store_remove_edge h r u v =
     (let G = h ! r in
      case remove_edge G u v of
        Inr G' \<Rightarrow> (None, h[r := G'])
      | Inl e \<Rightarrow>
          (Some e, if has_edge G u v then h[r := AList.update u (AList.delete v (nbrs G u)) G] else h))"

definition is_connected :: "graph \<Rightarrow> error + bool" where
  "is_connected G =
     (case graph_nodes G of
        [] \<Rightarrow> Inl NetworkXPointlessConcept
      | n # ns \<Rightarrow> Inr (length (plain_bfs G n) = number_of_nodes G))"

text \<open>\<^verbatim>\<open>min(componentes, key=len)\<close>: the first component of least size.\<close>
fun min_by_len :: "'a list \<Rightarrow> 'a list list \<Rightarrow> 'a list" where
  "min_by_len m [] = m"
| "min_by_len m (c # cs) = (if length c < length m then min_by_len c cs else min_by_len m cs)"

definition comparar_par :: "graph \<Rightarrow> graph \<Rightarrow> node \<times> node \<Rightarrow> rat list \<times> nat \<Rightarrow> error + rat list \<times> nat" where
  "comparar_par G Gm par acc =
     (case par of (origem, destino) \<Rightarrow>
      case acc of (aumentos, sem_caminho) \<Rightarrow>
        if origem \<ge> destino then Inr acc
        else
          (case shortest_path_length G origem destino of
             Inl e \<Rightarrow> if e = NetworkXNoPath then Inr acc else Inl e
           | Inr dist_original \<Rightarrow>
               (case shortest_path_length Gm origem destino of
                  Inl e \<Rightarrow> if e = NetworkXNoPath then Inr (aumentos, sem_caminho + 1) else Inl e
                | Inr dist_nova \<Rightarrow>
                    if dist_nova > dist_original then
                      ebind (fdiv (dist_nova - dist_original) dist_original) (\<lambda>q.
                        Inr (aumentos @ [q * 100], sem_caminho))
                    else Inr acc)))"

definition nos_amostra :: "graph \<Rightarrow> node list" where
  "nos_amostra G = take 20 (graph_nodes G)"

definition impacto_distancias :: "graph \<Rightarrow> graph \<Rightarrow> error + rat list \<times> nat" where
  "impacto_distancias G Gm =
     efold (comparar_par G Gm) (List.product (nos_amostra G) (nos_amostra G)) ([], 0)"

definition simular_aresta ::
  "store \<Rightarrow> nat \<Rightarrow> ((node \<times> node) \<times> weight) list \<Rightarrow> ((node \<times> node) \<times> rat) list \<Rightarrow> node \<times> node
     \<Rightarrow> (error + resultado) \<times> store" where
  "simular_aresta h self_grafo ds ebc aresta_remover =
     (case aresta_remover of (u, v) \<Rightarrow>
      let dist = obter_distancia ds u v;
          edge_bet = (case map_of ebc aresta_remover of None \<Rightarrow> 0 | Some b \<Rightarrow> b);
          (grafo_modificado, h1) = store_copy h self_grafo
      in case store_remove_edge h1 grafo_modificado u v of
           (Some e, h2) \<Rightarrow> (Inl e, h2)
         | (None, h2) \<Rightarrow>
            (let G = h2 ! self_grafo; Gm = h2 ! grafo_modificado in
             (ebind (is_connected G) (\<lambda>conexo_antes.
              ebind (is_connected Gm) (\<lambda>conexo_depois.
                let num_componentes_antes = number_connected_components G;
                    num_componentes_depois = number_connected_components Gm;
                    componentes = (if num_componentes_depois > 1 then connected_components Gm else []);
                    tamanhos = map length componentes;
                    menor_componente =
                      (case componentes of [] \<Rightarrow> [] | c # cs \<Rightarrow> sort (min_by_len c cs))
                in ebind (impacto_distancias G Gm) (\<lambda>(aumentos, sem_caminho).
                     Inr \<lparr>aresta = (u, v),
                          distancia = dist,
                          edge_betweenness = edge_bet,
                          componentes_antes = num_componentes_antes,
                          componentes_depois = num_componentes_depois,
                          is_conexo_antes = conexo_antes,
                          is_conexo_depois = conexo_depois,
                          tamanhos_componentes = rev (sort tamanhos),
                          nos_isolados = menor_componente,
                          aumentos_distancia = aumentos,
                          pares_desconectados = sem_caminho\<rparr>))), h2)))"

fun simular_arestas ::
  "store \<Rightarrow> nat \<Rightarrow> ((node \<times> node) \<times> weight) list \<Rightarrow> ((node \<times> node) \<times> rat) list
     \<Rightarrow> (node \<times> node) list \<Rightarrow> resultado list \<Rightarrow> (error + resultado list) \<times> store" where
  "simular_arestas h self_grafo ds ebc [] rs = (Inr rs, h)"
| "simular_arestas h self_grafo ds ebc (a # as) rs =
     (case simular_aresta h self_grafo ds ebc a of
        (Inl e, h') \<Rightarrow> (Inl e, h')
      | (Inr r, h') \<Rightarrow> simular_arestas h' self_grafo ds ebc as (rs @ [r]))"

definition escolher_arestas ::
  "graph \<Rightarrow> (node \<times> node) list \<Rightarrow> (node \<times> node) option \<Rightarrow> nat \<Rightarrow> error + (node \<times> node) list" where
  "escolher_arestas G pontes aresta_opt top_n =
     (case aresta_opt of
        Some a \<Rightarrow> Inr [a]
      | None \<Rightarrow>
          ebind (edge_betweenness_centrality G) (\<lambda>eb.
            let pontes_betweenness =
                  map (\<lambda>p. (p, case map_of eb p of None \<Rightarrow> 0 | Some b \<Rightarrow> b)) pontes
            in Inr (map fst (take top_n (sort_key (\<lambda>x. - snd x) pontes_betweenness)))))"

definition simular_remocao_ponte ::
  "store \<Rightarrow> nat \<Rightarrow> ((node \<times> node) \<times> weight) list \<Rightarrow> (node \<times> node) option \<Rightarrow> nat
     \<Rightarrow> (error + resultado list) \<times> store" where
  "simular_remocao_ponte h self_grafo ds aresta_opt top_n =
     (let G = h ! self_grafo;
          pontes = bridges G
      in if pontes = [] then (Inr [], h)
         else
           (case escolher_arestas G pontes aresta_opt top_n of
              Inl e \<Rightarrow> (Inl e, h)
            | Inr arestas_simular \<Rightarrow>
                (case edge_betweenness_centrality G of
                   Inl e \<Rightarrow> (Inl e, h)
                 | Inr ebc \<Rightarrow> simular_arestas h self_grafo ds ebc arestas_simular [])))"

section \<open>Notions used to state the facts\<close>

text \<open>The keys of a dict.\<close>

definition keys :: "('k \<times> 'v) list \<Rightarrow> 'k set" where
  "keys d = fst ` set d"

text \<open>
  What the loop of \<^verbatim>\<open>_dijkstra_multisource\<close> keeps true of its state: seen nodes are
  reachable, finished nodes are seen, a seen node that is not finished waits in the fringe,
  and all neighbours of a finished node are seen.
\<close>

definition dj_inv :: "graph \<Rightarrow> node \<Rightarrow> dijkstra_state \<Rightarrow> bool" where
  "dj_inv G s st \<longleftrightarrow>
     s \<in> keys (dj_seen st) \<and>
     keys (dj_dist st) \<subseteq> keys (dj_seen st) \<and>
     keys (dj_seen st) \<subseteq> reach G s \<and>
     fringe_nodes (dj_fringe st) \<subseteq> keys (dj_seen st) \<and>
     keys (dj_seen st) - keys (dj_dist st) \<subseteq> fringe_nodes (dj_fringe st) \<and>
     (\<forall>v \<in> keys (dj_dist st). set (neighbors G v) \<subseteq> keys (dj_seen st)) \<and>
     distinct (map fst (dj_dist st))"

text \<open>What one pass over the neighbour entries es of a finished node does to the state.\<close>

definition relax_post :: "(node \<times> weight) list \<Rightarrow> dijkstra_state \<Rightarrow> dijkstra_state \<Rightarrow> bool" where
  "relax_post es st st' \<longleftrightarrow>
     dj_dist st' = dj_dist st \<and>
     keys (dj_seen st) \<subseteq> keys (dj_seen st') \<and>
     keys (dj_seen st') \<subseteq> keys (dj_seen st) \<union> keys es \<and>
     fringe_nodes (dj_fringe st) \<subseteq> fringe_nodes (dj_fringe st') \<and>
     fringe_nodes (dj_fringe st') - fringe_nodes (dj_fringe st) \<subseteq> keys (dj_seen st') \<and>
     keys (dj_seen st') - keys (dj_seen st) \<subseteq> fringe_nodes (dj_fringe st') \<and>
     keys es \<subseteq> keys (dj_seen st') \<union> keys (dj_dist st)"

text \<open>No stored weight is negative.\<close>

definition nonneg_weights :: "graph \<Rightarrow> bool" where
  "nonneg_weights G \<longleftrightarrow> (\<forall>(n, d) \<in> set G. \<forall>(m, w) \<in> set d. 0 \<le> w)"

text \<open>Every final distance is at most every distance that waits in the fringe.\<close>

definition dj_mono :: "dijkstra_state \<Rightarrow> bool" where
  "dj_mono st \<longleftrightarrow> (\<forall>p \<in> set (dj_dist st). \<forall>x \<in> set (dj_fringe st). snd p \<le> fst x)"

text \<open>
  The value of closeness centrality in terms of the graph: with r the number of nodes
  reachable from n (n included) and totsp the sum of their distances from n, it is
  ((r - 1) / totsp) * ((r - 1) / (nodeCount - 1)) when totsp is positive and the graph has
  more than one node, and 0 otherwise.
\<close>

definition closeness_formula :: "graph \<Rightarrow> node \<Rightarrow> rat \<Rightarrow> rat" where
  "closeness_formula G n totsp =
     (if 0 < totsp \<and> 1 < number_of_nodes G
      then ((of_nat (card (reach G n)) - 1) / totsp) *
           ((of_nat (card (reach G n)) - 1) / (of_nat (number_of_nodes G) - 1))
      else 0)"

text \<open>The sampled pairs: origem before destino, both among the first 20 nodes.\<close>

definition pares_amostra :: "graph \<Rightarrow> (node \<times> node) list" where
  "pares_amostra G = filter (\<lambda>(a, b). a < b) (List.product (nos_amostra G) (nos_amostra G))"

text \<open>What the comparison appends for one sampled pair, and whether it counts the pair as
  disconnected, in terms of the two lengths that \<^const>\<open>shortest_path_length\<close> returns.\<close>

definition aumento_par :: "graph \<Rightarrow> graph \<Rightarrow> node \<times> node \<Rightarrow> rat option" where
  "aumento_par G Gm par =
     (case par of (origem, destino) \<Rightarrow>
        case shortest_path_length G origem destino of
          Inl e \<Rightarrow> None
        | Inr dist_original \<Rightarrow>
            (case shortest_path_length Gm origem destino of
               Inl e \<Rightarrow> None
             | Inr dist_nova \<Rightarrow>
                 if dist_nova > dist_original
                 then Some ((dist_nova - dist_original) / dist_original * 100) else None))"

definition par_desconectado :: "graph \<Rightarrow> graph \<Rightarrow> node \<times> node \<Rightarrow> bool" where
  "par_desconectado G Gm par =
     (case par of (origem, destino) \<Rightarrow>
        (case shortest_path_length G origem destino of Inl e \<Rightarrow> False | Inr a \<Rightarrow> True) \<and>
        shortest_path_length Gm origem destino = Inl NetworkXNoPath)"

text \<open>The weights stored in a graph.\<close>

definition weights_of :: "graph \<Rightarrow> weight set" where
  "weights_of G = {w. \<exists>n d m. (n, d) \<in> set G \<and> (m, w) \<in> set d}"

text \<open>The weight of the walk that starts at a and visits the nodes of p in turn.\<close>

fun walk_weight :: "graph \<Rightarrow> node \<Rightarrow> node list \<Rightarrow> weight option" where
  "walk_weight G a [] = Some 0"
| "walk_weight G a (b # p) =
     (case edge_weight G a b of
        None \<Rightarrow> None
      | Some w \<Rightarrow> (case walk_weight G b p of None \<Rightarrow> None | Some x \<Rightarrow> Some (w + x)))"

text \<open>d is the least weight of a walk from a to b.\<close>

definition shortest_distance :: "graph \<Rightarrow> node \<Rightarrow> node \<Rightarrow> weight \<Rightarrow> bool" where
  "shortest_distance G a b d \<longleftrightarrow>
     (\<exists>p. last (a # p) = b \<and> walk_weight G a p = Some d) \<and>
     (\<forall>p x. last (a # p) = b \<and> walk_weight G a p = Some x \<longrightarrow> d \<le> x)"

text \<open>Every neighbour dict has distinct keys.\<close>

definition distinct_nbrs :: "graph \<Rightarrow> bool" where
  "distinct_nbrs G \<longleftrightarrow> (\<forall>v. distinct (map fst (nbrs G v)))"

text \<open>
  What the loop keeps true of the distances: seen and fringe distances are weights of
  walks from the source, a seen node that is not finished waits in the fringe with its
  seen distance, the neighbours (those in R) of a finished node are seen no farther than
  through that node, and final distances are shortest.
\<close>

definition dj_opt :: "graph \<Rightarrow> node \<Rightarrow> (node \<Rightarrow> (node \<times> weight) set) \<Rightarrow> dijkstra_state \<Rightarrow> bool" where
  "dj_opt G s R st \<longleftrightarrow>
     (\<forall>u x. map_of (dj_seen st) u = Some x \<longrightarrow> (\<exists>p. last (s # p) = u \<and> walk_weight G s p = Some x)) \<and>
     (\<forall>x c u. (x, c, u) \<in> set (dj_fringe st) \<longrightarrow> (\<exists>p. last (s # p) = u \<and> walk_weight G s p = Some x)) \<and>
     (\<forall>u x. map_of (dj_seen st) u = Some x \<and> u \<notin> keys (dj_dist st) \<longrightarrow>
        (\<exists>c. (x, c, u) \<in> set (dj_fringe st))) \<and>
     (\<forall>v dv u c. (v, dv) \<in> set (dj_dist st) \<and> (u, c) \<in> R v \<and> u \<notin> keys (dj_dist st) \<longrightarrow>
        (\<exists>su. map_of (dj_seen st) u = Some su \<and> su \<le> dv + c)) \<and>
     (\<forall>v dv. (v, dv) \<in> set (dj_dist st) \<longrightarrow> shortest_distance G s v dv) \<and>
     (\<exists>x. map_of (dj_seen st) s = Some x \<and> x \<le> 0)"

text \<open>What the comparison reports for one sampled pair.\<close>

definition aumento_reportado :: "graph \<Rightarrow> graph \<Rightarrow> node \<Rightarrow> node \<Rightarrow> rat option \<Rightarrow> bool" where
  "aumento_reportado G Gm a b q \<longleftrightarrow>
     (case q of
        Some pct \<Rightarrow>
          (\<exists>x y. shortest_distance G a b x \<and> shortest_distance Gm a b y \<and>
                 0 < x \<and> x < y \<and> pct = (y - x) / x * 100)
      | None \<Rightarrow>
          b \<notin> reach G a \<or> b \<notin> reach Gm a \<or>
          (\<exists>x y. shortest_distance G a b x \<and> shortest_distance Gm a b y \<and> y \<le> x))"

text \<open>What every result of the loop over the edges to simulate satisfies.\<close>

definition resultado_de :: "graph \<Rightarrow> resultado \<Rightarrow> graph \<Rightarrow> bool" where
  "resultado_de G res Gm \<longleftrightarrow>
     remove_edge (copy G) (fst (aresta res)) (snd (aresta res)) = Inr Gm \<and>
     impacto_distancias G Gm = Inr (aumentos_distancia res, pares_desconectados res) \<and>
     componentes_antes res = number_connected_components G \<and>
     componentes_depois res = number_connected_components Gm"

section \<open>Facts about the graph operations\<close>

lemma nbrs_update: "nbrs (AList.update k d G) a = (if a = k then d else nbrs G a)"
  by (simp add: nbrs_def update_conv')

lemma nbrs_add_node: "nbrs (add_node G n) a = nbrs G a"
  by (auto simp: add_node_def nbrs_def has_node_def split: option.splits if_splits)

lemma edge_weight_add_edge:
  "edge_weight (add_edge G u v w) a b =
     (if (a = u \<and> b = v) \<or> (a = v \<and> b = u) then Some w else edge_weight G a b)"
  by (simp add: edge_weight_def add_edge_def Let_def nbrs_update nbrs_add_node update_conv')

lemma distancias_ler_net: "distancias (ler_net s l) = distancias s"
  by (cases l) (simp add: ler_net_def)

lemma chave_sym: "chave a b = chave b a"
  by (simp add: chave_def min.commute max.commute)

lemma obter_distancia_missing:
  "map_of ds (chave no1 no2) = None \<Longrightarrow> obter_distancia ds no1 no2 = 0 \<and> obter_distancia ds no2 no1 = 0"
  by (simp add: obter_distancia_def chave_sym[of no2 no1])

lemma ler_net_zero_new:
  assumes "map_of (distancias s) (chave no1 no2) = None"
  shows "zero_edge (grafo (ler_net s (no1, no2))) no1 no2"
  using obter_distancia_missing[OF assms]
  by (simp add: ler_net_def zero_edge_def edge_weight_add_edge)

lemma ler_net_zero_keep:
  assumes "map_of (distancias s) (chave no1 no2) = None"
    and "zero_edge (grafo s) no1 no2"
  shows "zero_edge (grafo (ler_net s l)) no1 no2"
proof (cases l)
  case (Pair a b)
  note z = obter_distancia_missing[OF assms(1)]
  have g: "grafo (ler_net s l) = add_edge (grafo s) a b (obter_distancia (distancias s) a b)"
    unfolding Pair by (simp add: ler_net_def)
  consider "a = no1 \<and> b = no2" | "a = no2 \<and> b = no1"
    | "\<not> (a = no1 \<and> b = no2) \<and> \<not> (a = no2 \<and> b = no1)" by blast
  then show ?thesis
  proof cases
    case 1
    then show ?thesis unfolding g zero_edge_def edge_weight_add_edge using z by simp
  next
    case 2
    then show ?thesis unfolding g zero_edge_def edge_weight_add_edge using z by simp
  next
    case 3
    then have "edge_weight (add_edge (grafo s) a b w) no1 no2 = edge_weight (grafo s) no1 no2"
      "edge_weight (add_edge (grafo s) a b w) no2 no1 = edge_weight (grafo s) no2 no1" for w
      unfolding edge_weight_add_edge by auto
    then show ?thesis unfolding g zero_edge_def using assms(2) unfolding zero_edge_def by simp
  qed
qed

lemma fold_ler_net_keep:
  assumes "map_of (distancias s) (chave no1 no2) = None"
    and "zero_edge (grafo s) no1 no2"
  shows "zero_edge (grafo (fold (\<lambda>l s. ler_net s l) net s)) no1 no2"
  using assms
proof (induction net arbitrary: s)
  case Nil
  then show ?case by simp
next
  case (Cons l net)
  have "map_of (distancias (ler_net s l)) (chave no1 no2) = None"
    using Cons.prems(1) by (simp add: distancias_ler_net)
  moreover have "zero_edge (grafo (ler_net s l)) no1 no2"
    using ler_net_zero_keep[OF Cons.prems] .
  ultimately show ?case using Cons.IH by simp
qed

lemma fold_ler_net_zero:
  assumes "map_of (distancias s) (chave no1 no2) = None"
    and "(no1, no2) \<in> set net"
  shows "zero_edge (grafo (fold (\<lambda>l s. ler_net s l) net s)) no1 no2"
  using assms
proof (induction net arbitrary: s)
  case Nil
  then show ?case by simp
next
  case (Cons l net)
  have d: "map_of (distancias (ler_net s l)) (chave no1 no2) = None"
    using Cons.prems(1) by (simp add: distancias_ler_net)
  show ?case
  proof (cases "l = (no1, no2)")
    case True
    have "zero_edge (grafo (ler_net s l)) no1 no2"
      unfolding True using ler_net_zero_new[OF Cons.prems(1)] .
    then show ?thesis using fold_ler_net_keep[OF d] by simp
  next
    case False
    then have "(no1, no2) \<in> set net" using Cons.prems(2) by auto
    then show ?thesis using Cons.IH[OF d] by simp
  qed
qed


lemma distancias_keys_ler_edge_info:
  "fst ` set (distancias (fold (\<lambda>l s. ler_edge_info s l) ls s)) =
     fst ` set (distancias s) \<union> (\<lambda>l. chave (ei_no1 l) (ei_no2 l)) ` set ls"
  by (induction ls arbitrary: s) (auto simp: ler_edge_info_def dom_update)

section \<open>Facts about degree centrality\<close>

lemma traverse_truediv:
  "b \<noteq> 0 \<Longrightarrow>
   traverse (\<lambda>(no, grau). case truediv grau b of Inl e \<Rightarrow> Inl e | Inr c \<Rightarrow> Inr (no, c)) xs
     = Inr (map (\<lambda>(no, grau). (no, of_int grau / of_int b)) xs)"
  by (induction xs) (auto simp: truediv_def)

lemma traverse_truediv_zero:
  "xs \<noteq> [] \<Longrightarrow>
   traverse (\<lambda>(no, grau). case truediv grau 0 of Inl e \<Rightarrow> Inl e | Inr c \<Rightarrow> Inr (no, c)) xs
     = Inl ZeroDivisionError"
  by (cases xs) (auto simp: truediv_def)

lemma calcular_degree_centrality_ok:
  assumes "number_of_nodes G \<noteq> 1"
  shows "calcular_degree_centrality G =
     Inr (map (\<lambda>n. (n, of_int (degree G n) / of_int (int (number_of_nodes G) - 1))) (graph_nodes G))"
proof -
  have "int (number_of_nodes G) - 1 \<noteq> 0" using assms by simp
  then show ?thesis
    unfolding calcular_degree_centrality_def Let_def
    by (simp add: traverse_truediv degree_view_def comp_def)
qed

lemma map_of_map_key:
  "n \<in> set xs \<Longrightarrow> map_of (map (\<lambda>n. (n, f n)) xs) n = Some (f n)"
  by (induction xs) auto

lemma wf_graph_nbrs:
  assumes "wf_graph G" "n \<in> set (graph_nodes G)"
  shows "(n, nbrs G n) \<in> set G"
proof -
  from assms(2) obtain d where d: "(n, d) \<in> set G" by (auto simp: graph_nodes_def)
  with assms(1) have "map_of G n = Some d" by (simp add: wf_graph_def)
  then show ?thesis using d by (simp add: nbrs_def)
qed

lemma wf_graph_neighbors_distinct:
  assumes "wf_graph G" "n \<in> set (graph_nodes G)"
  shows "distinct (neighbors G n)"
  using wf_graph_nbrs[OF assms] assms(1) by (auto simp: wf_graph_def neighbors_def)

lemma wf_graph_neighbor_node:
  assumes "wf_graph G" "n \<in> set (graph_nodes G)" "m \<in> set (neighbors G n)"
  shows "m \<in> set (graph_nodes G)"
proof -
  from assms(3) obtain w where "(m, w) \<in> set (nbrs G n)" by (auto simp: neighbors_def)
  with wf_graph_nbrs[OF assms(1,2)] assms(1) have "map_of (nbrs G m) n = Some w"
    by (auto simp: wf_graph_def)
  then have "nbrs G m \<noteq> []" by auto
  then have "map_of G m \<noteq> None" by (auto simp: nbrs_def split: option.splits)
  then show ?thesis by (auto simp: graph_nodes_def dest: map_of_SomeD intro: rev_image_eqI)
qed

lemma has_edge_neighbors: "has_edge G u v \<longleftrightarrow> v \<in> set (neighbors G u)"
  by (simp add: has_edge_def neighbors_def map_of_eq_None_iff)

lemma degree_nonneg: "0 \<le> degree G n"
  by (simp add: degree_def)

lemma degree_le:
  assumes "wf_graph G" "n \<in> set (graph_nodes G)" "\<not> has_edge G n n"
  shows "degree G n \<le> int (number_of_nodes G) - 1"
proof -
  have sub: "set (neighbors G n) \<subseteq> set (graph_nodes G) - {n}"
    using wf_graph_neighbor_node[OF assms(1,2)] assms(3) by (auto simp: has_edge_neighbors)
  have "length (neighbors G n) = card (set (neighbors G n))"
    using wf_graph_neighbors_distinct[OF assms(1,2)] by (simp add: distinct_card)
  also have "\<dots> \<le> card (set (graph_nodes G) - {n})"
    using sub by (intro card_mono) auto
  also have "\<dots> = card (set (graph_nodes G)) - 1" using assms(2) by simp
  also have "\<dots> \<le> length (graph_nodes G) - 1" using card_length[of "graph_nodes G"] by simp
  finally have "length (nbrs G n) \<le> number_of_nodes G - 1"
    by (simp add: neighbors_def number_of_nodes_def graph_nodes_def)
  moreover have "0 < number_of_nodes G" using assms(2) by (auto simp: number_of_nodes_def graph_nodes_def)
  ultimately show ?thesis using assms(3) by (simp add: degree_def)
qed

section \<open>Facts about components, copies and bridges\<close>

lemma plain_bfs_loop_reach:
  assumes "set queue \<subseteq> set seen"
    and "set seen \<subseteq> reach G s"
    and "s \<in> set seen"
    and "\<forall>x \<in> set seen - set queue. set (neighbors G x) \<subseteq> set seen"
  shows "set (plain_bfs_loop G seen queue) = reach G s"
  using assms
proof (induction G seen queue rule: plain_bfs_loop.induct)
  case (1 G seen)
  have "reach G s \<subseteq> set seen"
  proof
    fix y assume "y \<in> reach G s"
    then have "(s, y) \<in> (adjrel G)\<^sup>*" by (simp add: reach_def)
    then show "y \<in> set seen"
    proof (induction rule: rtrancl_induct)
      case base
      then show ?case using 1 by simp
    next
      case (step y z)
      then have "z \<in> set (neighbors G y)" by (simp add: adjrel_def has_edge_neighbors)
      with step 1 show ?case by auto
    qed
  qed
  with 1 show ?case by auto
next
  case (2 G seen v queue)
  let ?new = "fresh seen (neighbors G v)"
  have v: "v \<in> reach G s" using 2 by auto
  have a: "set (queue @ ?new) \<subseteq> set (seen @ ?new)" using 2 by auto
  have b: "set (seen @ ?new) \<subseteq> reach G s"
  proof -
    have "set (neighbors G v) \<subseteq> reach G s"
    proof
      fix w assume "w \<in> set (neighbors G v)"
      then have "(v, w) \<in> adjrel G" by (simp add: adjrel_def has_edge_neighbors)
      with v show "w \<in> reach G s" by (auto simp: reach_def intro: rtrancl_into_rtrancl)
    qed
    with 2 show ?thesis by (auto simp: set_fresh)
  qed
  have c: "s \<in> set (seen @ ?new)" using 2 by simp
  have d: "\<forall>x \<in> set (seen @ ?new) - set (queue @ ?new). set (neighbors G x) \<subseteq> set (seen @ ?new)"
  proof
    fix x assume x: "x \<in> set (seen @ ?new) - set (queue @ ?new)"
    then have xs: "x \<in> set seen" "x \<notin> set queue" by auto
    show "set (neighbors G x) \<subseteq> set (seen @ ?new)"
    proof (cases "x = v")
      case True
      then show ?thesis by (auto simp: set_fresh)
    next
      case False
      with xs 2 show ?thesis by auto
    qed
  qed
  from "2.IH"[OF refl a b c d] show ?case by (simp add: Let_def)
qed

lemma set_plain_bfs: "set (plain_bfs G s) = reach G s"
  unfolding plain_bfs_def
  by (rule plain_bfs_loop_reach) (auto simp: reach_def)



lemma reach_refl: "a \<in> reach G a"
  by (simp add: reach_def)

lemma reach_class:
  assumes "sym (adjrel G)" "x \<in> reach G a"
  shows "reach G x = reach G a"
proof -
  have ax: "(a, x) \<in> (adjrel G)\<^sup>*" using assms(2) by (simp add: reach_def)
  have "sym ((adjrel G)\<^sup>*)" using assms(1) by (rule sym_rtrancl)
  then have xa: "(x, a) \<in> (adjrel G)\<^sup>*" using ax by (auto dest: symD)
  show ?thesis unfolding reach_def using ax xa by (auto intro: rtrancl_trans)
qed

lemma components_loop_length:
  assumes "sym (adjrel G)" and "\<forall>x \<in> set seen. reach G x \<subseteq> set seen"
  shows "length (components_loop G seen vs) = card (reach G ` (set vs - set seen))"
  using assms(2)
proof (induction vs arbitrary: seen)
  case Nil
  then show ?case by simp
next
  case (Cons v vs)
  show ?case
  proof (cases "v \<in> set seen")
    case True
    then have "set (v # vs) - set seen = set vs - set seen" by auto
    with True Cons show ?thesis by simp
  next
    case False
    let ?c = "plain_bfs G v"
    have c: "set ?c = reach G v" by (rule set_plain_bfs)
    have closed: "\<forall>x \<in> set (seen @ ?c). reach G x \<subseteq> set (seen @ ?c)"
      using Cons.prems reach_class[OF assms(1)] c by auto
    have IH: "length (components_loop G (seen @ ?c) vs) = card (reach G ` (set vs - set (seen @ ?c)))"
      using Cons.IH[OF closed] .
    have img: "reach G ` (set (v # vs) - set seen)
          = insert (reach G v) (reach G ` (set vs - set (seen @ ?c)))"
    proof -
      have "reach G x \<in> insert (reach G v) (reach G ` (set vs - set (seen @ ?c)))"
        if "x \<in> set (v # vs) - set seen" for x
      proof (cases "x \<in> reach G v")
        case True
        then show ?thesis using reach_class[OF assms(1)] by simp
      next
        case False
        then have "x \<noteq> v" using reach_refl by auto
        with that False have "x \<in> set vs - set (seen @ ?c)" using c by auto
        then show ?thesis by blast
      qed
      moreover have "reach G v \<in> reach G ` (set (v # vs) - set seen)"
        using False by auto
      moreover have "reach G ` (set vs - set (seen @ ?c)) \<subseteq> reach G ` (set (v # vs) - set seen)"
        by auto
      ultimately show ?thesis by blast
    qed
    have notin: "reach G v \<notin> reach G ` (set vs - set (seen @ ?c))"
    proof
      assume "reach G v \<in> reach G ` (set vs - set (seen @ ?c))"
      then obtain x where x: "x \<in> set vs" "x \<notin> set ?c" "reach G v = reach G x" by auto
      then have "x \<in> reach G v" using reach_refl by auto
      with x c show False by simp
    qed
    have "length (components_loop G seen (v # vs)) = Suc (length (components_loop G (seen @ ?c) vs))"
      using False by (simp add: Let_def)
    also have "\<dots> = Suc (card (reach G ` (set vs - set (seen @ ?c))))" using IH by simp
    also have "\<dots> = card (reach G ` (set (v # vs) - set seen))"
      unfolding img using notin by simp
    finally show ?thesis .
  qed
qed

lemma number_connected_components_card:
  assumes "sym (adjrel G)"
  shows "number_connected_components G = card (reach G ` set (graph_nodes G))"
  unfolding number_connected_components_def connected_components_def
  using components_loop_length[OF assms, of "[]" "graph_nodes G"] by simp

text \<open>Removing one symmetric pair from a symmetric relation.\<close>

lemma remove_pair_same:
  assumes "sym E" and E': "E' = E - {(u, v), (v, u)}" and "(u, v) \<in> E'\<^sup>*"
  shows "E'\<^sup>* = E\<^sup>*"
proof -
  have symE': "sym E'" using assms(1) unfolding E' sym_def by auto
  then have "sym (E'\<^sup>*)" by (rule sym_rtrancl)
  then have vu: "(v, u) \<in> E'\<^sup>*" using assms(3) by (auto dest: symD)
  have "E \<subseteq> E'\<^sup>*" using assms(3) vu unfolding E' by auto
  then have "E\<^sup>* \<subseteq> E'\<^sup>*" by (metis rtrancl_subset_rtrancl rtrancl_idemp)
  moreover have "E'\<^sup>* \<subseteq> E\<^sup>*" unfolding E' by (intro rtrancl_mono) auto
  ultimately show ?thesis by blast
qed

lemma remove_pair_split:
  assumes symE: "sym E" and E': "E' = E - {(u, v), (v, u)}" and uvE: "(u, v) \<in> E"
    and nb: "(u, v) \<notin> E'\<^sup>*" and fin: "finite V" and uV: "u \<in> V" and vV: "v \<in> V"
  shows "card ((\<lambda>x. E'\<^sup>* `` {x}) ` V) = Suc (card ((\<lambda>x. E\<^sup>* `` {x}) ` V))"
proof -
  let ?R = "E\<^sup>*" and ?R' = "E'\<^sup>*"
  let ?B = "V - ?R `` {u}"
  have symE': "sym E'" using symE unfolding E' sym_def by auto
  have symR: "sym ?R" using symE by (rule sym_rtrancl)
  have symR': "sym ?R'" using symE' by (rule sym_rtrancl)
  have sub: "?R' \<subseteq> ?R" unfolding E' by (intro rtrancl_mono) auto
  have b: "(u, x) \<in> ?R' \<or> (v, x) \<in> ?R'" if "(u, x) \<in> ?R" for x
    using that
  proof (induction rule: rtrancl_induct)
    case base
    then show ?case by simp
  next
    case (step y z)
    show ?case
    proof (cases "(y, z) \<in> E'")
      case True
      with step.IH show ?thesis by (auto intro: rtrancl_into_rtrancl)
    next
      case False
      with step.hyps(2) have "z = u \<or> z = v" unfolding E' by auto
      then show ?thesis by auto
    qed
  qed
  have c: "(x, y) \<in> ?R'" if "(u, x) \<notin> ?R" "(x, y) \<in> ?R" for x y
    using that(2)
  proof (induction rule: rtrancl_induct)
    case base
    then show ?case by simp
  next
    case (step y z)
    have "(y, z) \<in> E'"
    proof (rule ccontr)
      assume "(y, z) \<notin> E'"
      with step.hyps(2) have "y = u \<or> y = v" unfolding E' by auto
      then have "(x, u) \<in> ?R"
      proof
        assume "y = u" with step.hyps(1) show ?thesis by simp
      next
        assume "y = v"
        moreover have "(v, u) \<in> E" using symE uvE by (auto dest: symD)
        ultimately show ?thesis using step.hyps(1) by (auto intro: rtrancl_into_rtrancl)
      qed
      then have "(u, x) \<in> ?R" using symR by (auto dest: symD)
      with that(1) show False by simp
    qed
    with step.IH show ?case by (auto intro: rtrancl_into_rtrancl)
  qed
  have cls_eq: "?R `` {x} = ?R `` {y}" if "(x, y) \<in> ?R" for x y
  proof -
    have "(y, x) \<in> ?R" using that symR by (auto dest: symD)
    with that show ?thesis by (auto intro: rtrancl_trans)
  qed
  have cls_eq': "?R' `` {x} = ?R' `` {y}" if "(x, y) \<in> ?R'" for x y
  proof -
    have "(y, x) \<in> ?R'" using that symR' by (auto dest: symD)
    with that show ?thesis by (auto intro: rtrancl_trans)
  qed
  have onB: "?R' `` {x} = ?R `` {x}" if "x \<in> ?B" for x
    using that c[of x] sub by auto
  have uvR: "(u, v) \<in> ?R" using uvE by auto
  have imgR: "(\<lambda>x. ?R `` {x}) ` V = insert (?R `` {u}) ((\<lambda>x. ?R `` {x}) ` ?B)"
  proof -
    have "?R `` {x} \<in> insert (?R `` {u}) ((\<lambda>x. ?R `` {x}) ` ?B)" if "x \<in> V" for x
    proof (cases "(u, x) \<in> ?R")
      case True
      from cls_eq[OF True] show ?thesis by simp
    next
      case False
      with that show ?thesis by blast
    qed
    then show ?thesis using uV by blast
  qed
  have imgR': "(\<lambda>x. ?R' `` {x}) ` V
        = insert (?R' `` {u}) (insert (?R' `` {v}) ((\<lambda>x. ?R `` {x}) ` ?B))"
  proof -
    have "?R' `` {x} \<in> insert (?R' `` {u}) (insert (?R' `` {v}) ((\<lambda>x. ?R `` {x}) ` ?B))"
      if "x \<in> V" for x
    proof (cases "(u, x) \<in> ?R")
      case True
      from b[OF True] show ?thesis
      proof
        assume "(u, x) \<in> ?R'" from cls_eq'[OF this] show ?thesis by simp
      next
        assume "(v, x) \<in> ?R'" from cls_eq'[OF this] show ?thesis by simp
      qed
    next
      case False
      with that have "x \<in> ?B" by auto
      from onB[OF this] this show ?thesis by blast
    qed
    moreover have "?R `` {x} \<in> (\<lambda>x. ?R' `` {x}) ` V" if "x \<in> ?B" for x
      using onB[OF that] that by blast
    ultimately show ?thesis using uV vV by blast
  qed
  have n1: "?R `` {u} \<notin> (\<lambda>x. ?R `` {x}) ` ?B"
  proof
    assume "?R `` {u} \<in> (\<lambda>x. ?R `` {x}) ` ?B"
    then obtain x where x: "x \<in> ?B" "?R `` {u} = ?R `` {x}" by auto
    then have "x \<in> ?R `` {u}" by auto
    with x show False by auto
  qed
  have n2: "?R' `` {u} \<notin> insert (?R' `` {v}) ((\<lambda>x. ?R `` {x}) ` ?B)"
  proof
    assume "?R' `` {u} \<in> insert (?R' `` {v}) ((\<lambda>x. ?R `` {x}) ` ?B)"
    then consider "?R' `` {u} = ?R' `` {v}" | x where "x \<in> ?B" "?R' `` {u} = ?R `` {x}" by auto
    then show False
    proof cases
      case 1
      then have "v \<in> ?R' `` {u}" by auto
      with nb show False by simp
    next
      case 2
      then have "(x, u) \<in> ?R" by auto
      then have "(u, x) \<in> ?R" using symR by (auto dest: symD)
      with 2 show False by auto
    qed
  qed
  have n3: "?R' `` {v} \<notin> (\<lambda>x. ?R `` {x}) ` ?B"
  proof
    assume "?R' `` {v} \<in> (\<lambda>x. ?R `` {x}) ` ?B"
    then obtain x where x: "x \<in> ?B" "?R' `` {v} = ?R `` {x}" by auto
    then have "(x, v) \<in> ?R" by auto
    then have "(v, x) \<in> ?R" using symR by (auto dest: symD)
    with uvR have "(u, x) \<in> ?R" by (auto intro: rtrancl_trans)
    with x show False by auto
  qed
  have finB: "finite ((\<lambda>x. ?R `` {x}) ` ?B)" using fin by simp
  show ?thesis unfolding imgR imgR' using n1 n2 n3 finB by simp
qed

lemma has_edge_has_node: "has_edge G u v \<Longrightarrow> u \<in> fst ` set G"
proof -
  assume "has_edge G u v"
  then have "nbrs G u \<noteq> []" by (auto simp: has_edge_def)
  then have "map_of G u \<noteq> None" by (auto simp: nbrs_def split: option.splits)
  then show ?thesis by (simp add: map_of_eq_None_iff)
qed

lemma graph_nodes_update: "k \<in> fst ` set G \<Longrightarrow> graph_nodes (AList.update k d G) = graph_nodes G"
  by (simp add: graph_nodes_def update_keys)

lemma has_edge_update:
  "has_edge (AList.update k (AList.delete x (nbrs G k)) G) a b \<longleftrightarrow>
     has_edge G a b \<and> \<not> (a = k \<and> b = x)"
  by (auto simp: has_edge_def nbrs_update delete_conv')

lemma remove_edge_Inr:
  assumes "remove_edge G u v = Inr G'"
  shows "adjrel G' = adjrel G - {(u, v), (v, u)}" and "graph_nodes G' = graph_nodes G"
    and "has_edge G u v" and "v \<in> set (graph_nodes G)"
proof -
  have uv: "has_edge G u v" using assms by (auto simp: remove_edge_def split: if_splits)
  then show "has_edge G u v" .
  let ?G1 = "AList.update u (AList.delete v (nbrs G u)) G"
  have n1: "graph_nodes ?G1 = graph_nodes G"
    using has_edge_has_node[OF uv] by (rule graph_nodes_update)
  show "adjrel G' = adjrel G - {(u, v), (v, u)}"
  proof (cases "u = v")
    case True
    then have "G' = ?G1" using assms uv by (simp add: remove_edge_def Let_def)
    then show ?thesis using True by (auto simp: adjrel_def has_edge_update)
  next
    case False
    then have "G' = AList.update v (AList.delete u (nbrs ?G1 v)) ?G1"
      using assms uv by (auto simp: remove_edge_def Let_def split: if_splits)
    then show ?thesis by (auto simp: adjrel_def has_edge_update)
  qed
  show "graph_nodes G' = graph_nodes G"
  proof (cases "u = v")
    case True
    then have "G' = ?G1" using assms uv by (simp add: remove_edge_def Let_def)
    then show ?thesis using n1 by simp
  next
    case False
    then have g: "G' = AList.update v (AList.delete u (nbrs ?G1 v)) ?G1" and vu: "has_edge ?G1 v u"
      using assms uv by (auto simp: remove_edge_def Let_def split: if_splits)
    show ?thesis unfolding g using graph_nodes_update[OF has_edge_has_node[OF vu]] n1 by simp
  qed
  show "v \<in> set (graph_nodes G)"
  proof (cases "u = v")
    case True
    then show ?thesis using has_edge_has_node[OF uv] by (simp add: graph_nodes_def)
  next
    case False
    then have vu: "has_edge ?G1 v u"
      using assms uv by (auto simp: remove_edge_def Let_def split: if_splits)
    from has_edge_has_node[OF vu] have "v \<in> set (graph_nodes ?G1)"
      by (simp add: graph_nodes_def)
    then show ?thesis unfolding n1 .
  qed
qed

lemma remove_edge_succeeds:
  assumes "sym (adjrel G)" "has_edge G u v"
  shows "\<exists>G'. remove_edge G u v = Inr G'"
proof -
  have "has_edge G v u" using assms by (auto simp: adjrel_def dest: symD)
  then show ?thesis using assms(2)
    by (auto simp: remove_edge_def Let_def has_edge_update)
qed

lemma reach_cong: "adjrel G = adjrel H \<Longrightarrow> reach G = reach H"
  by (simp add: reach_def fun_eq_iff)

lemma edge_removal_components:
  assumes symG: "sym (adjrel G)" and rm: "remove_edge G u v = Inr G'"
  shows "number_connected_components G' =
           (if v \<in> reach G' u then number_connected_components G
            else Suc (number_connected_components G))"
proof -
  note r = remove_edge_Inr[OF rm]
  have E': "adjrel G' = adjrel G - {(u, v), (v, u)}" by (rule r(1))
  have symG': "sym (adjrel G')" using symG unfolding E' sym_def by auto
  have uvE: "(u, v) \<in> adjrel G" using r(3) by (simp add: adjrel_def)
  have uV: "u \<in> set (graph_nodes G)" using has_edge_has_node[OF r(3)] by (simp add: graph_nodes_def)
  have vV: "v \<in> set (graph_nodes G)" by (rule r(4))
  have n: "number_connected_components G = card ((\<lambda>x. (adjrel G)\<^sup>* `` {x}) ` set (graph_nodes G))"
    using number_connected_components_card[OF symG] by (simp add: reach_def[abs_def])
  have n': "number_connected_components G' = card ((\<lambda>x. (adjrel G')\<^sup>* `` {x}) ` set (graph_nodes G))"
    using number_connected_components_card[OF symG'] r(2) by (simp add: reach_def[abs_def])
  show ?thesis
  proof (cases "v \<in> reach G' u")
    case True
    then have "(u, v) \<in> (adjrel G')\<^sup>*" by (simp add: reach_def)
    from remove_pair_same[OF symG E' this] True show ?thesis unfolding n n' by simp
  next
    case False
    then have "(u, v) \<notin> (adjrel G')\<^sup>*" by (simp add: reach_def)
    from remove_pair_split[OF symG E' uvE this _ uV vV] False show ?thesis unfolding n n' by simp
  qed
qed



lemma wf_graph_alt:
  "wf_graph G \<longleftrightarrow>
     distinct (map fst G) \<and>
     (\<forall>n d. map_of G n = Some d \<longrightarrow> distinct (map fst d) \<and>
        (\<forall>m w. map_of d m = Some w \<longrightarrow> edge_weight G m n = Some w))"
proof
  assume w: "wf_graph G"
  then have dG: "distinct (map fst G)" by (simp add: wf_graph_def)
  have "distinct (map fst d) \<and> (\<forall>m w. map_of d m = Some w \<longrightarrow> edge_weight G m n = Some w)"
    if "map_of G n = Some d" for n d
  proof -
    from that have nd: "(n, d) \<in> set G" by (rule map_of_SomeD)
    with w have d: "distinct (map fst d)" and e: "\<forall>(m, w) \<in> set d. map_of (nbrs G m) n = Some w"
      by (auto simp: wf_graph_def)
    from e show ?thesis using d by (auto simp: edge_weight_def dest!: map_of_SomeD)
  qed
  with dG show "distinct (map fst G) \<and>
     (\<forall>n d. map_of G n = Some d \<longrightarrow> distinct (map fst d) \<and>
        (\<forall>m w. map_of d m = Some w \<longrightarrow> edge_weight G m n = Some w))" by blast
next
  assume a: "distinct (map fst G) \<and>
     (\<forall>n d. map_of G n = Some d \<longrightarrow> distinct (map fst d) \<and>
        (\<forall>m w. map_of d m = Some w \<longrightarrow> edge_weight G m n = Some w))"
  show "wf_graph G"
    unfolding wf_graph_def
  proof (intro conjI ballI)
    show "distinct (map fst G)" using a by simp
  next
    fix x assume x: "x \<in> set G"
    obtain n d where nd: "x = (n, d)" by (cases x)
    with x a have m: "map_of G n = Some d" by simp
    with a have d: "distinct (map fst d)"
      and e: "\<forall>m w. map_of d m = Some w \<longrightarrow> edge_weight G m n = Some w" by blast+
    have "map_of (nbrs G m) n = Some w" if "(m, w) \<in> set d" for m w
      using that d e by (simp add: edge_weight_def)
    with d show "case x of (n, d) \<Rightarrow> distinct (map fst d) \<and>
        (\<forall>(m, w) \<in> set d. map_of (nbrs G m) n = Some w)"
      unfolding nd by auto
  qed
qed

lemma wf_graph_sym:
  assumes "wf_graph G"
  shows "sym (adjrel G)"
proof (rule symI)
  fix a b assume "(a, b) \<in> adjrel G"
  then have "has_edge G a b" by (simp add: adjrel_def)
  then obtain w where w: "map_of (nbrs G a) b = Some w" by (auto simp: has_edge_def)
  then have "nbrs G a \<noteq> []" by auto
  then obtain d where d: "map_of G a = Some d" by (auto simp: nbrs_def split: option.splits)
  with w have "map_of d b = Some w" by (simp add: nbrs_def)
  with assms d have "edge_weight G b a = Some w" unfolding wf_graph_alt by blast
  then show "(b, a) \<in> adjrel G" by (simp add: adjrel_def has_edge_def edge_weight_def)
qed

lemma wf_graph_empty: "wf_graph []"
  by (simp add: wf_graph_def)

lemma map_of_add_node:
  "map_of (add_node G n) a = (if a = n \<and> map_of G a = None then Some [] else map_of G a)"
  by (auto simp: add_node_def has_node_def map_add_def split: option.splits)

lemma distinct_add_node: "distinct (map fst G) \<Longrightarrow> distinct (map fst (add_node G n))"
  by (auto simp: add_node_def has_node_def map_of_eq_None_iff)

lemma edge_weight_add_node: "edge_weight (add_node G n) a b = edge_weight G a b"
  by (simp add: edge_weight_def nbrs_add_node)

lemma wf_graph_add_node:
  assumes "wf_graph G"
  shows "wf_graph (add_node G n)"
  using assms unfolding wf_graph_alt
  by (auto simp: map_of_add_node distinct_add_node edge_weight_add_node split: if_splits)



lemma wf_graph_weight_sym:
  assumes "wf_graph G" "edge_weight G a b = Some w"
  shows "edge_weight G b a = Some w"
proof -
  from assms(2) have w: "map_of (nbrs G a) b = Some w" by (simp add: edge_weight_def)
  then have "nbrs G a \<noteq> []" by auto
  then obtain d where d: "map_of G a = Some d" by (auto simp: nbrs_def split: option.splits)
  with w have "map_of d b = Some w" by (simp add: nbrs_def)
  with assms(1) d show ?thesis unfolding wf_graph_alt by blast
qed

lemma wf_graph_nbrs_distinct:
  assumes "wf_graph G"
  shows "distinct (map fst (nbrs G a))"
proof (cases "map_of G a")
  case None
  then show ?thesis by (simp add: nbrs_def)
next
  case (Some d)
  with assms show ?thesis unfolding wf_graph_alt by (auto simp: nbrs_def)
qed

lemma map_of_nbrs: "map_of G n = Some d \<Longrightarrow> nbrs G n = d"
  by (simp add: nbrs_def)

lemma wf_graph_add_edge:
  assumes "wf_graph G"
  shows "wf_graph (add_edge G u v w)"
proof -
  let ?H = "add_node (add_node G u) v"
  let ?G3 = "AList.update u (AList.update v w (nbrs ?H u)) ?H"
  let ?G4 = "AList.update v (AList.update u w (nbrs ?G3 v)) ?G3"
  have g4: "add_edge G u v w = ?G4" by (simp add: add_edge_def Let_def)
  have wfH: "wf_graph ?H" using assms by (intro wf_graph_add_node)
  have ew: "edge_weight ?G4 a b =
     (if (a = u \<and> b = v) \<or> (a = v \<and> b = u) then Some w else edge_weight ?H a b)" for a b
    using edge_weight_add_edge[of G u v w a b] unfolding g4 by (simp add: edge_weight_add_node)
  have dist: "distinct (map fst ?G4)"
    using wfH by (intro distinct_update) (simp add: wf_graph_alt)
  have inner: "distinct (map fst d) \<and> (\<forall>m w'. map_of d m = Some w' \<longrightarrow> edge_weight ?G4 m n = Some w')"
    if md: "map_of ?G4 n = Some d" for n d
  proof -
    consider (v) "n = v" | (u) "n \<noteq> v" "n = u" | (other) "n \<noteq> v" "n \<noteq> u" by blast
    then show ?thesis
    proof cases
      case v
      then have d: "d = AList.update u w (nbrs ?G3 v)" using md by (simp add: update_conv')
      have n3: "nbrs ?G3 v = (if v = u then AList.update v w (nbrs ?H u) else nbrs ?H v)"
        by (simp add: nbrs_update)
      have "distinct (map fst d)" unfolding d n3
        using wf_graph_nbrs_distinct[OF wfH] by (auto intro!: distinct_update)
      moreover have "edge_weight ?G4 m n = Some w'" if "map_of d m = Some w'" for m w'
      proof (cases "m = u")
        case True
        then show ?thesis using that v unfolding d ew by (simp add: update_conv')
      next
        case False
        then have "map_of (nbrs ?H v) m = Some w'"
          using that unfolding d n3 by (auto simp: update_conv' split: if_splits)
        then have "edge_weight ?H m v = Some w'"
          using wf_graph_weight_sym[OF wfH, of v m w'] by (simp add: edge_weight_def)
        then show ?thesis using False v unfolding ew by auto
      qed
      ultimately show ?thesis by blast
    next
      case u
      then have d: "d = AList.update v w (nbrs ?H u)" using md by (simp add: update_conv')
      have "distinct (map fst d)" unfolding d
        using wf_graph_nbrs_distinct[OF wfH] by (auto intro!: distinct_update)
      moreover have "edge_weight ?G4 m n = Some w'" if "map_of d m = Some w'" for m w'
      proof (cases "m = v")
        case True
        then show ?thesis using that u unfolding d ew by (simp add: update_conv')
      next
        case False
        then have "map_of (nbrs ?H u) m = Some w'"
          using that unfolding d by (auto simp: update_conv' split: if_splits)
        then have "edge_weight ?H m u = Some w'"
          using wf_graph_weight_sym[OF wfH, of u m w'] by (simp add: edge_weight_def)
        then show ?thesis using False u unfolding ew by auto
      qed
      ultimately show ?thesis by blast
    next
      case other
      then have mH: "map_of ?H n = Some d" using md by (simp add: update_conv')
      with wfH have "distinct (map fst d)"
        and e: "\<forall>m w'. map_of d m = Some w' \<longrightarrow> edge_weight ?H m n = Some w'"
        unfolding wf_graph_alt by blast+
      moreover have "edge_weight ?G4 m n = Some w'" if "map_of d m = Some w'" for m w'
        using e that other unfolding ew by auto
      ultimately show ?thesis by blast
    qed
  qed
  show ?thesis unfolding g4 wf_graph_alt[of ?G4] using dist inner by blast
qed

lemma wf_graph_carregar_dados: "wf_graph (grafo (carregar_dados edge_info net))"
proof -
  have "wf_graph (grafo (fold (\<lambda>l s. ler_net s l) net s))" if "wf_graph (grafo s)" for s
    using that
  proof (induction net arbitrary: s)
    case Nil
    then show ?case by simp
  next
    case (Cons l net)
    have "wf_graph (grafo (ler_net s l))"
      using Cons.prems by (cases l) (simp add: ler_net_def wf_graph_add_edge)
    then show ?case using Cons.IH by simp
  qed
  moreover have "grafo (fold (\<lambda>l s. ler_edge_info s l) ls s) = grafo s" for ls s
    by (induction ls arbitrary: s) (simp_all add: ler_edge_info_def)
  ultimately show ?thesis
    by (simp add: carregar_dados_def analisador_novo_def wf_graph_empty)
qed

lemma edge_weight_add_edge_same:
  "(a = u \<and> b = v) \<or> (a = v \<and> b = u) \<Longrightarrow> edge_weight (add_edge G u v w) a b = Some w"
  by (simp only: edge_weight_add_edge if_True)

lemma edge_weight_add_edge_other:
  "\<not> ((a = u \<and> b = v) \<or> (a = v \<and> b = u)) \<Longrightarrow>
   edge_weight (add_edge G u v w) a b = edge_weight G a b"
  by (simp only: edge_weight_add_edge if_False)

lemma add_edge_keeps:
  "edge_weight H a b \<noteq> None \<Longrightarrow> edge_weight (add_edge H u v w) a b \<noteq> None"
  using edge_weight_add_edge_same[of a u b v H w] edge_weight_add_edge_other[of a u b v H w]
  by (cases "(a = u \<and> b = v) \<or> (a = v \<and> b = u)") simp_all

lemma fold_add_edge_keeps:
  "edge_weight H a b \<noteq> None \<Longrightarrow>
   edge_weight (fold (\<lambda>(u, v, w) H. add_edge H u v w) T H) a b \<noteq> None"
proof (induction T arbitrary: H)
  case Nil
  then show ?case by simp
next
  case (Cons t T)
  obtain u v w where t: "t = (u, v, w)" by (cases t)
  from Cons.IH[OF add_edge_keeps[OF Cons.prems, of u v w]] show ?case unfolding t by simp
qed

lemma fold_add_edge_has:
  "(a, b, w) \<in> set T \<Longrightarrow>
   edge_weight (fold (\<lambda>(u, v, w) H. add_edge H u v w) T H) a b \<noteq> None"
proof (induction T arbitrary: H)
  case Nil
  then show ?case by simp
next
  case (Cons t T)
  obtain u v w' where t: "t = (u, v, w')" by (cases t)
  show ?case
  proof (cases "t = (a, b, w)")
    case True
    have "edge_weight (add_edge H a b w) a b = Some w" unfolding edge_weight_add_edge by simp
    then have "edge_weight (add_edge H a b w) a b \<noteq> None" by simp
    from fold_add_edge_keeps[OF this] True show ?thesis by simp
  next
    case False
    with Cons.prems have "(a, b, w) \<in> set T" by simp
    from Cons.IH[OF this] show ?thesis by simp
  qed
qed

lemma fold_add_edge_cons:
  assumes "\<And>u v w. (u, v, w) \<in> set T \<Longrightarrow> edge_weight G u v = Some w \<and> edge_weight G v u = Some w"
    and "\<And>a b w. edge_weight H a b = Some w \<Longrightarrow> edge_weight G a b = Some w"
    and "edge_weight (fold (\<lambda>(u, v, w) H. add_edge H u v w) T H) a b = Some w"
  shows "edge_weight G a b = Some w"
  using assms
proof (induction T arbitrary: H)
  case Nil
  then show ?case by simp
next
  case (Cons t T)
  obtain u v w' where t: "t = (u, v, w')" by (cases t)
  have uv: "edge_weight G u v = Some w' \<and> edge_weight G v u = Some w'"
    by (rule Cons.prems(1)[of u v w']) (simp add: t)
  have step: "edge_weight G x y = Some z" if h: "edge_weight (add_edge H u v w') x y = Some z" for x y z
  proof (cases "(x = u \<and> y = v) \<or> (x = v \<and> y = u)")
    case True
    then have "z = w'" using h edge_weight_add_edge_same[OF True, of H w'] by simp
    then show ?thesis using True uv by blast
  next
    case False
    then have "edge_weight H x y = Some z" using h edge_weight_add_edge_other[OF False, of H w'] by simp
    then show ?thesis by (rule Cons.prems(2))
  qed
  have f: "fold (\<lambda>(u, v, w) H. add_edge H u v w) (t # T) H
      = fold (\<lambda>(u, v, w) H. add_edge H u v w) T (add_edge H u v w')"
    by (simp add: t)
  show ?case
  proof (rule Cons.IH[of "add_edge H u v w'"])
    show "edge_weight G x y = Some z \<and> edge_weight G y x = Some z" if "(x, y, z) \<in> set T" for x y z
      by (rule Cons.prems(1)) (simp add: that)
    show "edge_weight G x y = Some z" if "edge_weight (add_edge H u v w') x y = Some z" for x y z
      using that by (rule step)
    show "edge_weight (fold (\<lambda>(u, v, w) H. add_edge H u v w) T (add_edge H u v w')) a b = Some w"
      using Cons.prems(3) unfolding f .
  qed
qed

lemma graph_nodes_add_node: "n \<in> set (graph_nodes G) \<Longrightarrow> add_node G n = G"
  by (auto simp: add_node_def has_node_def graph_nodes_def map_of_eq_None_iff)

lemma graph_nodes_add_edge:
  assumes "u \<in> set (graph_nodes G)" "v \<in> set (graph_nodes G)"
  shows "graph_nodes (add_edge G u v w) = graph_nodes G"
proof -
  have "add_node (add_node G u) v = G" using assms by (simp add: graph_nodes_add_node)
  then have "add_edge G u v w =
      AList.update v (AList.update u w (nbrs (AList.update u (AList.update v w (nbrs G u)) G) v))
        (AList.update u (AList.update v w (nbrs G u)) G)"
    by (simp add: add_edge_def Let_def)
  then show ?thesis using assms by (simp add: graph_nodes_def update_keys)
qed

lemma fold_add_edge_nodes:
  assumes "\<And>u v w. (u, v, w) \<in> set T \<Longrightarrow> u \<in> set (graph_nodes H) \<and> v \<in> set (graph_nodes H)"
  shows "graph_nodes (fold (\<lambda>(u, v, w) H. add_edge H u v w) T H) = graph_nodes H"
  using assms
proof (induction T arbitrary: H)
  case Nil
  then show ?case by simp
next
  case (Cons t T)
  obtain u v w' where t: "t = (u, v, w')" by (cases t)
  have uv: "u \<in> set (graph_nodes H) \<and> v \<in> set (graph_nodes H)"
    by (rule Cons.prems[of u v w']) (simp add: t)
  then have n: "graph_nodes (add_edge H u v w') = graph_nodes H"
    by (intro graph_nodes_add_edge) simp_all
  have f: "fold (\<lambda>(u, v, w) H. add_edge H u v w) (t # T) H
      = fold (\<lambda>(u, v, w) H. add_edge H u v w) T (add_edge H u v w')"
    by (simp add: t)
  have "graph_nodes (fold (\<lambda>(u, v, w) H. add_edge H u v w) T (add_edge H u v w'))
      = graph_nodes (add_edge H u v w')"
  proof (rule Cons.IH)
    show "x \<in> set (graph_nodes (add_edge H u v w')) \<and> y \<in> set (graph_nodes (add_edge H u v w'))"
      if "(x, y, z) \<in> set T" for x y z
      unfolding n by (rule Cons.prems[of x y z]) (simp add: that)
  qed
  then show ?case unfolding f n .
qed

lemma triples_iff:
  assumes "wf_graph G"
  shows "(a, b, w) \<in> set (triples G) \<longleftrightarrow> edge_weight G a b = Some w"
proof
  assume "(a, b, w) \<in> set (triples G)"
  then obtain d where d: "(a, d) \<in> set G" "(b, w) \<in> set d" by auto
  with assms have m: "map_of G a = Some d" by (simp add: wf_graph_def)
  with assms have "distinct (map fst d)" unfolding wf_graph_alt by blast
  with d m show "edge_weight G a b = Some w" by (simp add: edge_weight_def nbrs_def)
next
  assume "edge_weight G a b = Some w"
  then have w: "map_of (nbrs G a) b = Some w" by (simp add: edge_weight_def)
  then have "nbrs G a \<noteq> []" by auto
  then obtain d where d: "map_of G a = Some d" by (auto simp: nbrs_def split: option.splits)
  with w have "map_of d b = Some w" by (simp add: nbrs_def)
  then have "(b, w) \<in> set d" by (rule map_of_SomeD)
  moreover have "(a, d) \<in> set G" using d by (rule map_of_SomeD)
  ultimately show "(a, b, w) \<in> set (triples G)" by force
qed

lemma map_of_no_edges:
  "map_of (map (\<lambda>(n, d). (n, [])) G) a = (if a \<in> fst ` set G then Some [] else None)"
  by (induction G) (simp_all add: case_prod_beta)

lemma edge_weight_no_edges: "edge_weight (map (\<lambda>(n, d). (n, [])) G) a b = None"
  by (simp add: edge_weight_def nbrs_def map_of_no_edges)

lemma graph_nodes_no_edges: "graph_nodes (map (\<lambda>(n, d). (n, [])) G) = graph_nodes G"
  by (induction G) (auto simp: graph_nodes_def)

lemma edge_weight_nodes:
  assumes "wf_graph G" "edge_weight G a b = Some w"
  shows "a \<in> set (graph_nodes G)" "b \<in> set (graph_nodes G)"
proof -
  have *: "x \<in> set (graph_nodes G)" if "edge_weight G x y = Some w" for x y
  proof -
    from that have "has_edge G x y" by (simp add: has_edge_def edge_weight_def)
    from has_edge_has_node[OF this] show ?thesis by (simp add: graph_nodes_def)
  qed
  show "a \<in> set (graph_nodes G)" using *[OF assms(2)] .
  show "b \<in> set (graph_nodes G)" using *[OF wf_graph_weight_sym[OF assms]] .
qed

lemma copy_wf:
  assumes "wf_graph G"
  shows "edge_weight (copy G) a b = edge_weight G a b" and "graph_nodes (copy G) = graph_nodes G"
proof -
  let ?H0 = "map (\<lambda>(n, d). (n, [])) G"
  have T: "edge_weight G u v = Some w \<and> edge_weight G v u = Some w"
    if "(u, v, w) \<in> set (triples G)" for u v w
  proof -
    have "edge_weight G u v = Some w" using that triples_iff[OF assms] by blast
    then show ?thesis using wf_graph_weight_sym[OF assms] by blast
  qed
  have sub: "edge_weight G x y = Some z" if "edge_weight (copy G) x y = Some z" for x y z
  proof (rule fold_add_edge_cons[where T = "triples G" and H = ?H0])
    show "edge_weight G u v = Some w \<and> edge_weight G v u = Some w"
      if "(u, v, w) \<in> set (triples G)" for u v w using that by (rule T)
    show "edge_weight G p q = Some r" if "edge_weight ?H0 p q = Some r" for p q r
      using that by (simp add: edge_weight_no_edges)
    show "edge_weight (fold (\<lambda>(u, v, w) H. add_edge H u v w) (triples G) ?H0) x y = Some z"
      using that unfolding copy_def .
  qed
  show "edge_weight (copy G) a b = edge_weight G a b"
  proof (cases "edge_weight G a b")
    case None
    show ?thesis
    proof (cases "edge_weight (copy G) a b")
      case None
      with \<open>edge_weight G a b = None\<close> show ?thesis by simp
    next
      case (Some z)
      from sub[OF this] \<open>edge_weight G a b = None\<close> show ?thesis by simp
    qed
  next
    case (Some w)
    then have "(a, b, w) \<in> set (triples G)" using triples_iff[OF assms] by blast
    from fold_add_edge_has[OF this, of ?H0] obtain w' where w': "edge_weight (copy G) a b = Some w'"
      unfolding copy_def by blast
    from sub[OF w'] Some w' show ?thesis by simp
  qed
  have "graph_nodes (fold (\<lambda>(u, v, w) H. add_edge H u v w) (triples G) ?H0) = graph_nodes ?H0"
  proof (rule fold_add_edge_nodes)
    show "u \<in> set (graph_nodes ?H0) \<and> v \<in> set (graph_nodes ?H0)"
      if "(u, v, w) \<in> set (triples G)" for u v w
      unfolding graph_nodes_no_edges using T[OF that] edge_weight_nodes[OF assms] by blast
  qed
  then show "graph_nodes (copy G) = graph_nodes G"
    unfolding copy_def by (simp add: graph_nodes_no_edges)
qed

lemma copy_adjrel: "wf_graph G \<Longrightarrow> adjrel (copy G) = adjrel G"
  using copy_wf(1)[of G] by (simp add: adjrel_def has_edge_def edge_weight_def)

text \<open>The edge view reports every edge, in one of its two orientations.\<close>
lemma edges_from_sound:
  "(n, m) \<in> set (edges_from seen G) \<Longrightarrow> \<exists>d. (n, d) \<in> set G \<and> m \<in> fst ` set d"
  by (induction seen G rule: edges_from.induct) auto

lemma edges_from_complete:
  assumes "distinct (map fst G)" "(n, dn) \<in> set G" "(m, dm) \<in> set G"
    "m \<in> fst ` set dn" "n \<in> fst ` set dm" "n \<notin> set seen" "m \<notin> set seen"
  shows "(n, m) \<in> set (edges_from seen G) \<or> (m, n) \<in> set (edges_from seen G)"
  using assms
proof (induction seen G rule: edges_from.induct)
  case (1 seen)
  then show ?case by simp
next
  case (2 seen k d rest)
  consider "k = n" | "k \<noteq> n" "k = m" | "k \<noteq> n" "k \<noteq> m" by blast
  then show ?case
  proof cases
    case 1
    with 2 have "dn = d" by (auto simp: rev_image_eqI)
    with 1 2 show ?thesis by auto
  next
    case 2: 2
    with "2.prems" have "dm = d" by (auto simp: rev_image_eqI)
    with 2 "2.prems" show ?thesis by auto
  next
    case 3
    with "2.prems" have "(n, m) \<in> set (edges_from (k # seen) rest) \<or> (m, n) \<in> set (edges_from (k # seen) rest)"
      by (intro "2.IH") auto
    then show ?thesis by auto
  qed
qed

lemma has_edge_iff_mem:
  assumes "wf_graph G"
  shows "has_edge G a b \<longleftrightarrow> (\<exists>d. (a, d) \<in> set G \<and> b \<in> fst ` set d)"
proof -
  have "has_edge G a b \<longleftrightarrow> (\<exists>w. (a, b, w) \<in> set (triples G))"
    using triples_iff[OF assms] by (auto simp: has_edge_def edge_weight_def)
  also have "\<dots> \<longleftrightarrow> (\<exists>d. (a, d) \<in> set G \<and> b \<in> fst ` set d)" by force
  finally show ?thesis .
qed

lemma edges_has_edge:
  assumes "wf_graph G" "(a, b) \<in> set (edges G)"
  shows "has_edge G a b"
  using edges_from_sound[of a b "[]" G] assms has_edge_iff_mem[OF assms(1)] by (simp add: edges_def)

lemma has_edge_edges:
  assumes "wf_graph G" "has_edge G a b"
  shows "(a, b) \<in> set (edges G) \<or> (b, a) \<in> set (edges G)"
proof -
  have ba: "has_edge G b a" using wf_graph_sym[OF assms(1)] assms(2) by (auto simp: adjrel_def dest: symD)
  from assms(2) ba obtain da db where "(a, da) \<in> set G" "b \<in> fst ` set da" "(b, db) \<in> set G" "a \<in> fst ` set db"
    unfolding has_edge_iff_mem[OF assms(1)] by blast
  then show ?thesis
    unfolding edges_def using assms(1)
    by (intro edges_from_complete[where dn = da and dm = db]) (auto simp: wf_graph_def)
qed



lemma is_bridge_iff:
  assumes symG: "sym (adjrel G)" and e: "has_edge G u v"
    and H: "adjrel H = adjrel G - {(u, v), (v, u)}"
  shows "is_bridge G u v \<longleftrightarrow> v \<notin> reach H u"
proof -
  from remove_edge_succeeds[OF symG e] obtain G0 where G0: "remove_edge G u v = Inr G0" by blast
  have "adjrel G0 = adjrel H" using remove_edge_Inr(1)[OF G0] H by simp
  then have "reach G0 = reach H" by (rule reach_cong)
  then show ?thesis by (simp add: is_bridge_def G0 set_plain_bfs)
qed

lemma reach_sym:
  assumes "sym (adjrel H)"
  shows "v \<in> reach H u \<longleftrightarrow> u \<in> reach H v"
proof -
  have "sym ((adjrel H)\<^sup>*)" using assms by (rule sym_rtrancl)
  then show ?thesis unfolding reach_def by (auto dest: symD)
qed

lemma bridges_reported:
  assumes wf: "wf_graph G" and e: "has_edge G u v"
    and H: "adjrel H = adjrel G - {(u, v), (v, u)}"
  shows "((u, v) \<in> set (bridges G) \<or> (v, u) \<in> set (bridges G)) \<longleftrightarrow> v \<notin> reach H u"
proof -
  have symG: "sym (adjrel G)" using wf by (rule wf_graph_sym)
  have e': "has_edge G v u" using symG e by (auto simp: adjrel_def dest: symD)
  have symH: "sym (adjrel H)" using symG unfolding H sym_def by auto
  have H': "adjrel H = adjrel G - {(v, u), (u, v)}" using H by auto
  have b1: "is_bridge G u v \<longleftrightarrow> v \<notin> reach H u" by (rule is_bridge_iff[OF symG e H])
  have "is_bridge G v u \<longleftrightarrow> u \<notin> reach H v" by (rule is_bridge_iff[OF symG e' H'])
  then have b2: "is_bridge G v u \<longleftrightarrow> v \<notin> reach H u" using reach_sym[OF symH] by simp
  have m1: "(u, v) \<in> set (bridges G) \<longleftrightarrow> (u, v) \<in> set (edges G) \<and> is_bridge G u v"
    by (simp add: bridges_def)
  have m2: "(v, u) \<in> set (bridges G) \<longleftrightarrow> (v, u) \<in> set (edges G) \<and> is_bridge G v u"
    by (simp add: bridges_def)
  from has_edge_edges[OF wf e] show ?thesis unfolding m1 m2 b1 b2 by blast
qed

lemma number_connected_components_cong:
  assumes "sym (adjrel G)" "adjrel H = adjrel G" "graph_nodes H = graph_nodes G"
  shows "number_connected_components H = number_connected_components G"
proof -
  have "sym (adjrel H)" using assms by simp
  from number_connected_components_card[OF this] number_connected_components_card[OF assms(1)]
  show ?thesis using reach_cong[OF assms(2)] assms(3) by simp
qed


section \<open>Facts about shortest paths\<close>

lemma keys_Nil: "keys [] = {}"
  by (simp add: keys_def)

lemma keys_Cons: "keys (x # xs) = insert (fst x) (keys xs)"
  by (simp add: keys_def)

lemma keys_append: "keys (xs @ ys) = keys xs \<union> keys ys"
  by (simp add: keys_def image_Un)

lemma keys_update: "keys (AList.update k v xs) = insert k (keys xs)"
  by (simp add: keys_def dom_update)

lemma map_of_None_keys: "map_of xs k = None \<longleftrightarrow> k \<notin> keys xs"
  by (simp add: keys_def map_of_eq_None_iff)

lemma map_of_Some_key: "map_of xs k = Some v \<Longrightarrow> k \<in> keys xs"
  using map_of_None_keys[of xs k] by simp

lemma dj_push_dist: "dj_dist (dj_push d u st) = dj_dist st"
  by (simp add: dj_push_def)

lemma dj_push_seen: "keys (dj_seen (dj_push d u st)) = insert u (keys (dj_seen st))"
  by (simp add: dj_push_def keys_update)

lemma dj_push_fringe: "fringe_nodes (dj_fringe (dj_push d u st)) = insert u (fringe_nodes (dj_fringe st))"
  by (simp add: dj_push_def fringe_nodes_def)

lemma dj_relax_cases:
  assumes "dj_relax dv (u, cost) st = Inr st'"
  shows "(st' = st \<and> u \<in> keys (dj_seen st) \<union> keys (dj_dist st)) \<or>
         (st' = dj_push (dv + cost) u st \<and> u \<notin> keys (dj_dist st))"
proof (cases "map_of (dj_dist st) u")
  case None
  then have nd: "u \<notin> keys (dj_dist st)" by (simp add: map_of_None_keys)
  show ?thesis
  proof (cases "map_of (dj_seen st) u")
    case n2: None
    then have "st' = dj_push (dv + cost) u st" using assms None by (simp add: dj_relax_def Let_def)
    with nd show ?thesis by simp
  next
    case (Some s)
    then have in_seen: "u \<in> keys (dj_seen st)" by (rule map_of_Some_key)
    show ?thesis
    proof (cases "dv + cost < s")
      case True
      then have "st' = dj_push (dv + cost) u st" using assms None Some by (simp add: dj_relax_def Let_def)
      with nd show ?thesis by simp
    next
      case False
      then have "st' = st" using assms None Some by (simp add: dj_relax_def Let_def)
      with in_seen show ?thesis by simp
    qed
  qed
next
  case (Some ud)
  then have in_dist: "u \<in> keys (dj_dist st)" by (rule map_of_Some_key)
  have "st' = st" using assms Some by (simp add: dj_relax_def Let_def split: if_splits)
  with in_dist show ?thesis by simp
qed

lemma relax_post_refl: "relax_post [] st st"
  by (simp add: relax_post_def keys_Nil)

lemma relax_postD:
  assumes "relax_post es st st'"
  shows "dj_dist st' = dj_dist st"
    and "keys (dj_seen st) \<subseteq> keys (dj_seen st')"
    and "keys (dj_seen st') \<subseteq> keys (dj_seen st) \<union> keys es"
    and "fringe_nodes (dj_fringe st) \<subseteq> fringe_nodes (dj_fringe st')"
    and "fringe_nodes (dj_fringe st') - fringe_nodes (dj_fringe st) \<subseteq> keys (dj_seen st')"
    and "keys (dj_seen st') - keys (dj_seen st) \<subseteq> fringe_nodes (dj_fringe st')"
    and "keys es \<subseteq> keys (dj_seen st') \<union> keys (dj_dist st)"
  using assms unfolding relax_post_def by simp_all

lemma relax_postI:
  assumes "dj_dist st' = dj_dist st"
    and "keys (dj_seen st) \<subseteq> keys (dj_seen st')"
    and "keys (dj_seen st') \<subseteq> keys (dj_seen st) \<union> keys es"
    and "fringe_nodes (dj_fringe st) \<subseteq> fringe_nodes (dj_fringe st')"
    and "fringe_nodes (dj_fringe st') - fringe_nodes (dj_fringe st) \<subseteq> keys (dj_seen st')"
    and "keys (dj_seen st') - keys (dj_seen st) \<subseteq> fringe_nodes (dj_fringe st')"
    and "keys es \<subseteq> keys (dj_seen st') \<union> keys (dj_dist st)"
  shows "relax_post es st st'"
  unfolding relax_post_def using assms by (intro conjI)

lemma relax_post_step:
  assumes r: "dj_relax dv e st = Inr st1" and p: "relax_post es st1 st'"
  shows "relax_post (e # es) st st'"
proof -
  obtain u cost where e: "e = (u, cost)" by (cases e)
  note p' = relax_postD[OF p]
  have ke: "keys (e # es) = insert u (keys es)" unfolding e by (simp add: keys_Cons)
  from dj_relax_cases[OF r[unfolded e]]
  have "(st1 = st \<and> u \<in> keys (dj_seen st) \<union> keys (dj_dist st)) \<or>
         (st1 = dj_push (dv + cost) u st \<and> u \<notin> keys (dj_dist st))" .
  then show ?thesis
  proof
    assume a: "st1 = st \<and> u \<in> keys (dj_seen st) \<union> keys (dj_dist st)"
    then have eq: "st1 = st" and u: "u \<in> keys (dj_seen st) \<union> keys (dj_dist st)" by simp_all
    show ?thesis
    proof (rule relax_postI)
      show "dj_dist st' = dj_dist st" using p'(1) eq by simp
      show "keys (dj_seen st) \<subseteq> keys (dj_seen st')" using p'(2) eq by simp
      show "keys (dj_seen st') \<subseteq> keys (dj_seen st) \<union> keys (e # es)"
        unfolding ke using p'(3) eq by auto
      show "fringe_nodes (dj_fringe st) \<subseteq> fringe_nodes (dj_fringe st')" using p'(4) eq by simp
      show "fringe_nodes (dj_fringe st') - fringe_nodes (dj_fringe st) \<subseteq> keys (dj_seen st')"
        using p'(5) eq by simp
      show "keys (dj_seen st') - keys (dj_seen st) \<subseteq> fringe_nodes (dj_fringe st')"
        using p'(6) eq by simp
      have "u \<in> keys (dj_seen st') \<union> keys (dj_dist st)" using u p'(2) eq by auto
      moreover have "keys es \<subseteq> keys (dj_seen st') \<union> keys (dj_dist st)" using p'(7) eq by simp
      ultimately show "keys (e # es) \<subseteq> keys (dj_seen st') \<union> keys (dj_dist st)"
        unfolding ke by auto
    qed
  next
    assume a: "st1 = dj_push (dv + cost) u st \<and> u \<notin> keys (dj_dist st)"
    then have eq: "st1 = dj_push (dv + cost) u st" by simp
    have d: "dj_dist st1 = dj_dist st" unfolding eq by (rule dj_push_dist)
    have sn: "keys (dj_seen st1) = insert u (keys (dj_seen st))" unfolding eq by (rule dj_push_seen)
    have f: "fringe_nodes (dj_fringe st1) = insert u (fringe_nodes (dj_fringe st))"
      unfolding eq by (rule dj_push_fringe)
    have us: "u \<in> keys (dj_seen st')" using p'(2) sn by auto
    have uf: "u \<in> fringe_nodes (dj_fringe st')" using p'(4) f by auto
    show ?thesis
    proof (rule relax_postI)
      show "dj_dist st' = dj_dist st" using p'(1) d by simp
      show "keys (dj_seen st) \<subseteq> keys (dj_seen st')" using p'(2) sn by auto
      show "keys (dj_seen st') \<subseteq> keys (dj_seen st) \<union> keys (e # es)"
        unfolding ke using p'(3) sn by auto
      show "fringe_nodes (dj_fringe st) \<subseteq> fringe_nodes (dj_fringe st')" using p'(4) f by auto
      show "fringe_nodes (dj_fringe st') - fringe_nodes (dj_fringe st) \<subseteq> keys (dj_seen st')"
        using p'(5) f us by auto
      show "keys (dj_seen st') - keys (dj_seen st) \<subseteq> fringe_nodes (dj_fringe st')"
        using p'(6) sn uf by auto
      show "keys (e # es) \<subseteq> keys (dj_seen st') \<union> keys (dj_dist st)"
        unfolding ke using p'(7) d us by auto
    qed
  qed
qed

lemma efold_dj_relax_post:
  assumes "efold (dj_relax dv) es st = Inr st'"
  shows "relax_post es st st'"
  using assms
proof (induction es arbitrary: st)
  case Nil
  then show ?case by (simp add: relax_post_refl)
next
  case (Cons e es)
  from Cons.prems obtain st1 where s1: "dj_relax dv e st = Inr st1" and r: "efold (dj_relax dv) es st1 = Inr st'"
    by (cases "dj_relax dv e st") simp_all
  from relax_post_step[OF s1 Cons.IH[OF r]] show ?case .
qed

lemma heappop_rest_nodes:
  assumes "heappop q = Some ((d, c, v), rest)"
  shows "fringe_nodes q \<subseteq> insert v (fringe_nodes rest)"
proof -
  from assms obtain x xs where q: "q = x # xs" and r: "rest = remove1 (d, c, v) q"
    by (cases q) (auto simp: heappop_def Let_def simp del: remove1.simps)
  have "x \<in> insert (d, c, v) (set (remove1 (d, c, v) q))" if "x \<in> set q" for x
    using that by (cases "x = (d, c, v)") (simp_all add: in_set_remove1)
  then have "set q \<subseteq> insert (d, c, v) (set rest)" unfolding r by blast
  then show ?thesis unfolding fringe_nodes_def by auto
qed

lemma dj_invD:
  assumes "dj_inv G s st"
  shows "s \<in> keys (dj_seen st)"
    and "keys (dj_dist st) \<subseteq> keys (dj_seen st)"
    and "keys (dj_seen st) \<subseteq> reach G s"
    and "fringe_nodes (dj_fringe st) \<subseteq> keys (dj_seen st)"
    and "keys (dj_seen st) - keys (dj_dist st) \<subseteq> fringe_nodes (dj_fringe st)"
    and "\<And>v. v \<in> keys (dj_dist st) \<Longrightarrow> set (neighbors G v) \<subseteq> keys (dj_seen st)"
    and "distinct (map fst (dj_dist st))"
  using assms unfolding dj_inv_def by simp_all

lemma dj_invI:
  assumes "s \<in> keys (dj_seen st)"
    and "keys (dj_dist st) \<subseteq> keys (dj_seen st)"
    and "keys (dj_seen st) \<subseteq> reach G s"
    and "fringe_nodes (dj_fringe st) \<subseteq> keys (dj_seen st)"
    and "keys (dj_seen st) - keys (dj_dist st) \<subseteq> fringe_nodes (dj_fringe st)"
    and "\<And>v. v \<in> keys (dj_dist st) \<Longrightarrow> set (neighbors G v) \<subseteq> keys (dj_seen st)"
    and "distinct (map fst (dj_dist st))"
  shows "dj_inv G s st"
  unfolding dj_inv_def using assms by blast

lemma keys_nbrs: "keys (nbrs G v) = set (neighbors G v)"
  by (simp add: keys_def neighbors_def)

lemma reach_step:
  assumes "v \<in> reach G s" "w \<in> set (neighbors G v)"
  shows "w \<in> reach G s"
proof -
  have "(v, w) \<in> adjrel G" using assms(2) by (simp add: adjrel_def has_edge_neighbors)
  with assms(1) show ?thesis unfolding reach_def by (auto intro: rtrancl_into_rtrancl)
qed

lemma reach_closed_subset:
  assumes "s \<in> A" and "\<And>v. v \<in> A \<Longrightarrow> set (neighbors G v) \<subseteq> A"
  shows "reach G s \<subseteq> A"
proof
  fix y assume "y \<in> reach G s"
  then have "(s, y) \<in> (adjrel G)\<^sup>*" by (simp add: reach_def)
  then show "y \<in> A"
  proof (induction rule: rtrancl_induct)
    case base
    then show ?case using assms(1) .
  next
    case (step y z)
    then have "z \<in> set (neighbors G y)" by (simp add: adjrel_def has_edge_neighbors)
    with assms(2)[OF step.IH] show ?case by blast
  qed
qed

lemma heappop_None: "heappop q = None \<Longrightarrow> q = []"
  by (cases q) (simp_all add: heappop_def Let_def)

lemma dj_step_cases:
  obtains (empty) "dj_fringe st = []" "dj_step G tgt st = Inl (Inr (dj_dist st))"
  | (stale) d c v rest where "heappop (dj_fringe st) = Some ((d, c, v), rest)"
      "v \<in> keys (dj_dist st)" "dj_step G tgt st = Inr (st\<lparr>dj_fringe := rest\<rparr>)"
  | (target) d c v rest where "heappop (dj_fringe st) = Some ((d, c, v), rest)"
      "v \<notin> keys (dj_dist st)" "tgt = Some v" "dj_step G tgt st = Inl (Inr (dj_dist st @ [(v, d)]))"
  | (relax) d c v rest where "heappop (dj_fringe st) = Some ((d, c, v), rest)"
      "v \<notin> keys (dj_dist st)" "tgt \<noteq> Some v"
      "dj_step G tgt st =
         (case efold (dj_relax d) (nbrs G v) (st\<lparr>dj_fringe := rest, dj_dist := dj_dist st @ [(v, d)]\<rparr>) of
            Inl e \<Rightarrow> Inl (Inl e) | Inr st2 \<Rightarrow> Inr st2)"
proof (cases "heappop (dj_fringe st)")
  case None
  then have "dj_fringe st = []" by (rule heappop_None)
  moreover have "dj_step G tgt st = Inl (Inr (dj_dist st))" using None by (simp add: dj_step_def)
  ultimately show ?thesis by (rule empty)
next
  case (Some p)
  obtain d c v rest where p: "p = ((d, c, v), rest)" by (cases p) auto
  note pop = Some[unfolded p]
  show ?thesis
  proof (cases "v \<in> keys (dj_dist st)")
    case True
    then have "map_of (dj_dist st) v \<noteq> None" by (simp add: map_of_None_keys)
    then have "dj_step G tgt st = Inr (st\<lparr>dj_fringe := rest\<rparr>)" using pop by (simp add: dj_step_def)
    with pop True show ?thesis by (rule stale)
  next
    case False
    then have n: "map_of (dj_dist st) v = None" by (simp add: map_of_None_keys)
    show ?thesis
    proof (cases "tgt = Some v")
      case True
      then have "dj_step G tgt st = Inl (Inr (dj_dist st @ [(v, d)]))"
        using pop n by (simp add: dj_step_def Let_def)
      with pop False True show ?thesis by (rule target)
    next
      case ne: False
      then have "dj_step G tgt st =
         (case efold (dj_relax d) (nbrs G v) (st\<lparr>dj_fringe := rest, dj_dist := dj_dist st @ [(v, d)]\<rparr>) of
            Inl e \<Rightarrow> Inl (Inl e) | Inr st2 \<Rightarrow> Inr st2)"
        using pop n by (auto simp: dj_step_def Let_def)
      with pop False ne show ?thesis by (rule relax)
    qed
  qed
qed

lemma heappop_nodes:
  assumes "heappop q = Some ((d, c, v), rest)"
  shows "v \<in> fringe_nodes q" and "fringe_nodes rest \<subseteq> fringe_nodes q"
    and "fringe_nodes q \<subseteq> insert v (fringe_nodes rest)"
proof -
  note hp = heappop_Some[OF assms]
  show "v \<in> fringe_nodes q" using hp(1) unfolding fringe_nodes_def by force
  show "fringe_nodes rest \<subseteq> fringe_nodes q" using hp(3) unfolding fringe_nodes_def by (rule image_mono)
  show "fringe_nodes q \<subseteq> insert v (fringe_nodes rest)" using assms by (rule heappop_rest_nodes)
qed

lemma dj_inv_step:
  assumes inv: "dj_inv G s st" and step: "dj_step G tgt st = Inr st'"
  shows "dj_inv G s st'"
proof -
  note i = dj_invD[OF inv]
  show ?thesis
  proof (cases rule: dj_step_cases[of st G tgt])
    case empty
    with step show ?thesis by simp
  next
    case (stale d c v rest)
    then have st': "st' = st\<lparr>dj_fringe := rest\<rparr>" using step by simp
    note hn = heappop_nodes[OF stale(1)]
    show ?thesis
    proof (rule dj_invI)
      show "s \<in> keys (dj_seen st')" unfolding st' using i(1) by simp
      show "keys (dj_dist st') \<subseteq> keys (dj_seen st')" unfolding st' using i(2) by simp
      show "keys (dj_seen st') \<subseteq> reach G s" unfolding st' using i(3) by simp
      show "fringe_nodes (dj_fringe st') \<subseteq> keys (dj_seen st')" unfolding st' using i(4) hn(2) by auto
      show "keys (dj_seen st') - keys (dj_dist st') \<subseteq> fringe_nodes (dj_fringe st')"
        unfolding st' using i(5) hn(3) stale(2) by auto
      show "set (neighbors G w) \<subseteq> keys (dj_seen st')" if "w \<in> keys (dj_dist st')" for w
        using that i(6)[of w] unfolding st' by simp
      show "distinct (map fst (dj_dist st'))" unfolding st' using i(7) by simp
    qed
  next
    case (target d c v rest)
    with step show ?thesis by simp
  next
    case (relax d c v rest)
    let ?st1 = "st\<lparr>dj_fringe := rest, dj_dist := dj_dist st @ [(v, d)]\<rparr>"
    from relax(4) step have r: "efold (dj_relax d) (nbrs G v) ?st1 = Inr st'"
      by (cases "efold (dj_relax d) (nbrs G v) ?st1") simp_all
    note p = relax_postD[OF efold_dj_relax_post[OF r]]
    note hn = heappop_nodes[OF relax(1)]
    have d1: "keys (dj_dist ?st1) = insert v (keys (dj_dist st))" by (simp add: keys_append keys_Cons keys_Nil)
    have s1: "dj_seen ?st1 = dj_seen st" by simp
    have f1: "dj_fringe ?st1 = rest" by simp
    have vs: "v \<in> keys (dj_seen st)" using hn(1) i(4) by auto
    have vr: "v \<in> reach G s" using vs i(3) by auto
    have nb: "keys (nbrs G v) \<subseteq> reach G s" unfolding keys_nbrs using reach_step[OF vr] by blast
    have dd: "keys (dj_dist st') = insert v (keys (dj_dist st))" using p(1) d1 by simp
    show ?thesis
    proof (rule dj_invI)
      show "s \<in> keys (dj_seen st')" using p(2) s1 i(1) by auto
      show "keys (dj_dist st') \<subseteq> keys (dj_seen st')" unfolding dd using p(2) s1 i(2) vs by auto
      show "keys (dj_seen st') \<subseteq> reach G s" using p(3) s1 i(3) nb by auto
      show "fringe_nodes (dj_fringe st') \<subseteq> keys (dj_seen st')"
        using p(5) p(2) f1 s1 hn(2) i(4) by auto
      show "keys (dj_seen st') - keys (dj_dist st') \<subseteq> fringe_nodes (dj_fringe st')"
      proof
        fix x assume x: "x \<in> keys (dj_seen st') - keys (dj_dist st')"
        then have xv: "x \<noteq> v" and xd: "x \<notin> keys (dj_dist st)" unfolding dd by auto
        show "x \<in> fringe_nodes (dj_fringe st')"
        proof (cases "x \<in> keys (dj_seen st)")
          case True
          with xd i(5) have "x \<in> fringe_nodes (dj_fringe st)" by auto
          with hn(3) xv have "x \<in> fringe_nodes rest" by auto
          with p(4) f1 show ?thesis by auto
        next
          case False
          with x p(6) s1 show ?thesis by auto
        qed
      qed
      show "set (neighbors G w) \<subseteq> keys (dj_seen st')" if "w \<in> keys (dj_dist st')" for w
      proof (cases "w = v")
        case True
        have "keys (nbrs G v) \<subseteq> keys (dj_seen st') \<union> keys (dj_dist ?st1)" using p(7) .
        moreover have "keys (dj_dist ?st1) \<subseteq> keys (dj_seen st')"
          unfolding d1 using p(2) s1 i(2) vs by auto
        ultimately show ?thesis unfolding True keys_nbrs by auto
      next
        case False
        with that have "w \<in> keys (dj_dist st)" unfolding dd by simp
        from i(6)[OF this] p(2) s1 show ?thesis by auto
      qed
      have "distinct (map fst (dj_dist ?st1))"
        using i(7) relax(2) by (simp add: keys_def)
      then show "distinct (map fst (dj_dist st'))" using p(1) by simp
    qed
  qed
qed

lemma dj_inv_exit:
  assumes inv: "dj_inv G s st" and step: "dj_step G tgt st = Inl (Inr sp)"
  shows "keys sp \<subseteq> reach G s \<and> distinct (map fst sp) \<and>
         (tgt = None \<longrightarrow> keys sp = reach G s) \<and>
         (\<forall>t. tgt = Some t \<and> t \<in> reach G s \<longrightarrow> t \<in> keys sp)"
proof -
  note i = dj_invD[OF inv]
  show ?thesis
  proof (cases rule: dj_step_cases[of st G tgt])
    case empty
    then have sp: "sp = dj_dist st" using step by simp
    have "fringe_nodes (dj_fringe st) = {}" using empty(1) by (simp add: fringe_nodes_def)
    then have eq: "keys (dj_seen st) = keys (dj_dist st)" using i(5) i(2) by auto
    have "reach G s \<subseteq> keys (dj_dist st)"
    proof (rule reach_closed_subset)
      show "s \<in> keys (dj_dist st)" using i(1) eq by simp
      show "set (neighbors G v) \<subseteq> keys (dj_dist st)" if "v \<in> keys (dj_dist st)" for v
        using i(6)[OF that] eq by simp
    qed
    moreover have "keys (dj_dist st) \<subseteq> reach G s" using i(2) i(3) by auto
    ultimately have "keys sp = reach G s" unfolding sp by auto
    then show ?thesis using i(7) sp by auto
  next
    case (stale d c v rest)
    with step show ?thesis by simp
  next
    case (target d c v rest)
    then have sp: "sp = dj_dist st @ [(v, d)]" using step by simp
    note hn = heappop_nodes[OF target(1)]
    have vr: "v \<in> reach G s" using hn(1) i(4) i(3) by auto
    have k: "keys sp = insert v (keys (dj_dist st))" unfolding sp by (simp add: keys_append keys_Cons keys_Nil)
    have "keys sp \<subseteq> reach G s" unfolding k using vr i(2) i(3) by auto
    moreover have "distinct (map fst sp)" unfolding sp using i(7) target(2) by (simp add: keys_def)
    moreover have "tgt \<noteq> None" using target(3) by simp
    moreover have "t \<in> keys sp" if "tgt = Some t" for t using that target(3) k by simp
    ultimately show ?thesis by blast
  next
    case (relax d c v rest)
    with step show ?thesis
      by (cases "efold (dj_relax d) (nbrs G v) (st\<lparr>dj_fringe := rest, dj_dist := dj_dist st @ [(v, d)]\<rparr>)") simp_all
  qed
qed

lemma dj_loop_reach:
  assumes "dj_inv G s st" and "dj_loop G tgt st = Inr sp"
  shows "keys sp \<subseteq> reach G s \<and> distinct (map fst sp) \<and>
         (tgt = None \<longrightarrow> keys sp = reach G s) \<and>
         (\<forall>t. tgt = Some t \<and> t \<in> reach G s \<longrightarrow> t \<in> keys sp)"
  using assms
proof (induction G tgt st rule: dj_loop.induct)
  case (1 G tgt st)
  show ?case
  proof (cases "dj_step G tgt st")
    case (Inl r)
    then have "r = Inr sp" using "1.prems"(2) by (subst (asm) dj_loop.simps) simp
    with Inl have "dj_step G tgt st = Inl (Inr sp)" by simp
    from dj_inv_exit[OF "1.prems"(1) this] show ?thesis .
  next
    case (Inr st')
    then have l: "dj_loop G tgt st' = Inr sp" using "1.prems"(2) by (subst (asm) dj_loop.simps) simp
    from "1.IH"[OF Inr dj_inv_step[OF "1.prems"(1) Inr] l] show ?thesis .
  qed
qed

lemma dj_inv_init:
  "dj_inv G s \<lparr>dj_dist = [], dj_seen = [(s, 0)], dj_fringe = [(0, 0, s)], dj_count = 1\<rparr>"
  by (rule dj_invI) (simp_all add: keys_Nil keys_Cons fringe_nodes_def reach_refl)

lemma dijkstra_reach:
  assumes "dijkstra G s tgt = Inr sp"
  shows "keys sp \<subseteq> reach G s" and "distinct (map fst sp)"
    and "tgt = None \<Longrightarrow> keys sp = reach G s"
    and "tgt = Some t \<Longrightarrow> t \<in> reach G s \<Longrightarrow> t \<in> keys sp"
  using dj_loop_reach[OF dj_inv_init assms[unfolded dijkstra_def]] by blast+

lemma nonneg_weights_nbrs:
  assumes "nonneg_weights G" "(m, w) \<in> set (nbrs G v)"
  shows "0 \<le> w"
proof (cases "map_of G v")
  case None
  with assms(2) show ?thesis by (simp add: nbrs_def)
next
  case (Some d)
  then have "(v, d) \<in> set G" by (rule map_of_SomeD)
  moreover have "(m, w) \<in> set d" using assms(2) Some by (simp add: nbrs_def)
  ultimately show ?thesis using assms(1) unfolding nonneg_weights_def by blast
qed

lemma heap_min_le:
  "fst (heap_min m xs) \<le> fst m \<and> (\<forall>x \<in> set xs. fst (heap_min m xs) \<le> fst x)"
proof (induction m xs rule: heap_min.induct)
  case (1 m)
  then show ?case by simp
next
  case (2 m x xs)
  show ?case
  proof (cases "item_less x m")
    case True
    then have xm: "fst x \<le> fst m" by (auto simp: item_less_def)
    from True "2.IH"(1) have ih: "fst (heap_min x xs) \<le> fst x" "\<forall>y \<in> set xs. fst (heap_min x xs) \<le> fst y"
      by simp_all
    have h: "heap_min m (x # xs) = heap_min x xs" using True by simp
    show ?thesis unfolding h using ih xm by auto
  next
    case False
    then have mx: "fst m \<le> fst x" by (auto simp: item_less_def)
    from False "2.IH"(2) have ih: "fst (heap_min m xs) \<le> fst m" "\<forall>y \<in> set xs. fst (heap_min m xs) \<le> fst y"
      by simp_all
    have h: "heap_min m (x # xs) = heap_min m xs" using False by simp
    show ?thesis unfolding h using ih mx by auto
  qed
qed

lemma heappop_least:
  assumes "heappop q = Some (m, rest)" "x \<in> set q"
  shows "fst m \<le> fst x"
proof -
  from assms(1) obtain y ys where q: "q = y # ys" and m: "m = heap_min y ys"
    by (cases q) (auto simp: heappop_def Let_def simp del: remove1.simps)
  from assms(2) q have "x = y \<or> x \<in> set ys" by simp
  then show ?thesis using heap_min_le[of y ys] m by auto
qed

text \<open>With all final distances at most dv and a non-negative cost, relaxing cannot raise.\<close>

lemma dj_relax_ok:
  assumes le: "\<And>p. p \<in> set (dj_dist st) \<Longrightarrow> snd p \<le> dv" and c: "0 \<le> cost"
  shows "\<exists>st'. dj_relax dv (u, cost) st = Inr st' \<and> dj_dist st' = dj_dist st \<and>
           (\<forall>x \<in> set (dj_fringe st'). x \<in> set (dj_fringe st) \<or> dv \<le> fst x)"
proof (cases "map_of (dj_dist st) u")
  case None
  show ?thesis
  proof (cases "map_of (dj_seen st) u")
    case n2: None
    then have "dj_relax dv (u, cost) st = Inr (dj_push (dv + cost) u st)"
      using None by (simp add: dj_relax_def Let_def)
    then show ?thesis using c by (auto simp: dj_push_def)
  next
    case (Some s)
    show ?thesis
    proof (cases "dv + cost < s")
      case True
      then have "dj_relax dv (u, cost) st = Inr (dj_push (dv + cost) u st)"
        using None Some by (simp add: dj_relax_def Let_def)
      then show ?thesis using c by (auto simp: dj_push_def)
    next
      case False
      then have "dj_relax dv (u, cost) st = Inr st" using None Some by (simp add: dj_relax_def Let_def)
      then show ?thesis by simp
    qed
  qed
next
  case (Some ud)
  then have "(u, ud) \<in> set (dj_dist st)" by (rule map_of_SomeD)
  from le[OF this] have "ud \<le> dv" by simp
  then have "\<not> dv + cost < ud" using c by simp
  then have "dj_relax dv (u, cost) st = Inr st" using Some by (simp add: dj_relax_def Let_def)
  then show ?thesis by simp
qed

lemma efold_dj_relax_ok:
  assumes le: "\<And>p. p \<in> set (dj_dist st) \<Longrightarrow> snd p \<le> dv"
    and c: "\<And>e. e \<in> set es \<Longrightarrow> 0 \<le> snd e"
  shows "\<exists>st'. efold (dj_relax dv) es st = Inr st' \<and> dj_dist st' = dj_dist st \<and>
           (\<forall>x \<in> set (dj_fringe st'). x \<in> set (dj_fringe st) \<or> dv \<le> fst x)"
  using assms
proof (induction es arbitrary: st)
  case Nil
  then show ?case by simp
next
  case (Cons e es)
  obtain u cost where e: "e = (u, cost)" by (cases e)
  have "0 \<le> cost" using Cons.prems(2)[of e] e by simp
  from dj_relax_ok[OF Cons.prems(1) this, of st u]
  obtain st1 where s1: "dj_relax dv (u, cost) st = Inr st1" and d1: "dj_dist st1 = dj_dist st"
    and f1: "\<forall>x \<in> set (dj_fringe st1). x \<in> set (dj_fringe st) \<or> dv \<le> fst x" by blast
  have le1: "\<And>p. p \<in> set (dj_dist st1) \<Longrightarrow> snd p \<le> dv" unfolding d1 by (rule Cons.prems(1))
  have c1: "\<And>e. e \<in> set es \<Longrightarrow> 0 \<le> snd e" using Cons.prems(2) by simp
  from Cons.IH[OF le1 c1]
  obtain st' where s': "efold (dj_relax dv) es st1 = Inr st'" and d': "dj_dist st' = dj_dist st1"
    and f': "\<forall>x \<in> set (dj_fringe st'). x \<in> set (dj_fringe st1) \<or> dv \<le> fst x" by blast
  have "efold (dj_relax dv) (e # es) st = Inr st'" using s1 s' e by simp
  moreover have "dj_dist st' = dj_dist st" using d' d1 by simp
  moreover have "\<forall>x \<in> set (dj_fringe st'). x \<in> set (dj_fringe st) \<or> dv \<le> fst x"
    using f' f1 by blast
  ultimately show ?case by blast
qed

lemma dj_mono_step:
  assumes nn: "nonneg_weights G" and mono: "dj_mono st"
  shows "(\<forall>e. dj_step G tgt st \<noteq> Inl (Inl e)) \<and> (\<forall>st'. dj_step G tgt st = Inr st' \<longrightarrow> dj_mono st')"
proof (cases rule: dj_step_cases[of st G tgt])
  case empty
  then show ?thesis by simp
next
  case (stale d c v rest)
  note hp = heappop_Some[OF stale(1)]
  have "dj_mono (st\<lparr>dj_fringe := rest\<rparr>)"
    using mono hp(3) unfolding dj_mono_def by auto
  with stale(3) show ?thesis by simp
next
  case (target d c v rest)
  then show ?thesis by simp
next
  case (relax d c v rest)
  let ?st1 = "st\<lparr>dj_fringe := rest, dj_dist := dj_dist st @ [(v, d)]\<rparr>"
  note hp = heappop_Some[OF relax(1)]
  have old: "snd p \<le> d" if "p \<in> set (dj_dist st)" for p
    using mono that hp(1) unfolding dj_mono_def by force
  have le: "snd p \<le> d" if "p \<in> set (dj_dist ?st1)" for p
  proof (cases "p \<in> set (dj_dist st)")
    case True
    then show ?thesis by (rule old)
  next
    case False
    with that have "p = (v, d)" by simp
    then show ?thesis by simp
  qed
  have c: "0 \<le> snd e" if "e \<in> set (nbrs G v)" for e
    using nonneg_weights_nbrs[OF nn, of "fst e" "snd e" v] that by simp
  from efold_dj_relax_ok[of ?st1 d "nbrs G v", OF le c]
  obtain st' where s': "efold (dj_relax d) (nbrs G v) ?st1 = Inr st'" and d': "dj_dist st' = dj_dist ?st1"
    and f': "\<forall>x \<in> set (dj_fringe st'). x \<in> set (dj_fringe ?st1) \<or> d \<le> fst x" by blast
  have step: "dj_step G tgt st = Inr st'" using relax(4) s' by simp
  have "dj_mono st'" unfolding dj_mono_def
  proof (intro ballI)
    fix p x assume p: "p \<in> set (dj_dist st')" and x: "x \<in> set (dj_fringe st')"
    have pd: "snd p \<le> d" using p le unfolding d' by blast
    have "d \<le> fst x"
    proof (cases "x \<in> set (dj_fringe ?st1)")
      case True
      then have "x \<in> set (dj_fringe st)" using hp(3) by auto
      from heappop_least[OF relax(1) this] show ?thesis by simp
    next
      case False
      with f' x show ?thesis by blast
    qed
    with pd show "snd p \<le> fst x" by simp
  qed
  with step show ?thesis by simp
qed

lemma dj_loop_ok:
  assumes "nonneg_weights G" and "dj_mono st"
  shows "\<exists>sp. dj_loop G tgt st = Inr sp"
  using assms
proof (induction G tgt st rule: dj_loop.induct)
  case (1 G tgt st)
  note ms = dj_mono_step[OF "1.prems", of tgt]
  show ?case
  proof (cases "dj_step G tgt st")
    case (Inl r)
    with ms obtain sp where "r = Inr sp" by (cases r) auto
    with Inl have "dj_loop G tgt st = Inr sp" by (subst dj_loop.simps) simp
    then show ?thesis by blast
  next
    case (Inr st')
    with ms have "dj_mono st'" by blast
    from "1.IH"[OF Inr "1.prems"(1) this] obtain sp where "dj_loop G tgt st' = Inr sp" by blast
    with Inr have "dj_loop G tgt st = Inr sp" by (subst dj_loop.simps) simp
    then show ?thesis by blast
  qed
qed

lemma dijkstra_ok:
  assumes "nonneg_weights G"
  shows "\<exists>sp. dijkstra G s tgt = Inr sp"
  unfolding dijkstra_def
  by (rule dj_loop_ok[OF assms]) (simp add: dj_mono_def)

lemma shortest_path_length_reach:
  assumes nn: "nonneg_weights G" and s: "has_node G s" and ne: "s \<noteq> t"
  shows "(t \<in> reach G s \<longrightarrow> (\<exists>d. shortest_path_length G s t = Inr d)) \<and>
         (t \<notin> reach G s \<longrightarrow> shortest_path_length G s t = Inl NetworkXNoPath)"
proof -
  from dijkstra_ok[OF nn, of s "Some t"] obtain sp where sp: "dijkstra G s (Some t) = Inr sp" by blast
  note r = dijkstra_reach[OF sp]
  have spl: "shortest_path_length G s t =
      (case map_of sp t of None \<Rightarrow> Inl NetworkXNoPath | Some d \<Rightarrow> Inr d)"
    using s ne sp by (simp add: shortest_path_length_def)
  show ?thesis
  proof (cases "t \<in> reach G s")
    case True
    from r(4)[OF refl True] have "map_of sp t \<noteq> None" by (simp add: map_of_None_keys)
    then obtain d where "map_of sp t = Some d" by blast
    with spl True show ?thesis by simp
  next
    case False
    with r(1) have "t \<notin> keys sp" by blast
    then have "map_of sp t = None" by (simp add: map_of_None_keys)
    with spl False show ?thesis by simp
  qed
qed

section \<open>Facts about closeness and the distance comparison\<close>

lemma traverse_all_ok:
  assumes "\<And>x. x \<in> set xs \<Longrightarrow> f x = Inr (g x)"
  shows "traverse f xs = Inr (map g xs)"
  using assms by (induction xs) simp_all

lemma closeness_of_value:
  assumes "nonneg_weights G"
  shows "\<exists>sp. dijkstra G n None = Inr sp \<and> fst ` set sp = reach G n \<and> distinct (map fst sp) \<and>
           closeness_of G n = Inr (closeness_formula G n (sum_list (map snd sp)))"
proof -
  from dijkstra_ok[OF assms, of n None] obtain sp where sp: "dijkstra G n None = Inr sp" by blast
  note r = dijkstra_reach[OF sp]
  have k: "fst ` set sp = reach G n" using r(3)[OF refl] by (simp add: keys_def)
  have "card (reach G n) = card (set (map fst sp))" using k by simp
  also have "\<dots> = length sp" using distinct_card[OF r(2)] by simp
  finally have len: "length sp = card (reach G n)" by simp
  have "closeness_of G n = Inr (closeness_formula G n (sum_list (map snd sp)))"
    unfolding closeness_of_def closeness_formula_def sp ebind_def Let_def by (simp add: len)
  with sp k r(2) show ?thesis by blast
qed

lemma comparar_par_step:
  assumes "comparar_par G Gm (origem, destino) (aumentos, sem) = Inr (aumentos', sem')"
  shows "aumentos' = aumentos @ (if origem < destino then (case aumento_par G Gm (origem, destino) of None \<Rightarrow> [] | Some q \<Rightarrow> [q]) else [])"
    and "sem' = sem + (if origem < destino \<and> par_desconectado G Gm (origem, destino) then 1 else 0)"
proof -
  show "aumentos' = aumentos @ (if origem < destino then (case aumento_par G Gm (origem, destino) of None \<Rightarrow> [] | Some q \<Rightarrow> [q]) else [])"
    using assms unfolding comparar_par_def aumento_par_def fdiv_def ebind_def
    by (auto split: sum.splits if_splits)
  show "sem' = sem + (if origem < destino \<and> par_desconectado G Gm (origem, destino) then 1 else 0)"
    using assms unfolding comparar_par_def par_desconectado_def fdiv_def ebind_def
    by (auto split: sum.splits if_splits)
qed

lemma efold_comparar_par:
  assumes "efold (comparar_par G Gm) ps (aumentos, sem) = Inr (aumentos', sem')"
  shows "aumentos' = aumentos @ List.map_filter (aumento_par G Gm) (filter (\<lambda>(a, b). a < b) ps) \<and>
         sem' = sem + length (filter (par_desconectado G Gm) (filter (\<lambda>(a, b). a < b) ps))"
  using assms
proof (induction ps arbitrary: aumentos sem)
  case Nil
  then show ?case by (simp add: List.map_filter_simps)
next
  case (Cons p ps)
  obtain origem destino where p: "p = (origem, destino)" by (cases p)
  from Cons.prems obtain a1 s1 where s1: "comparar_par G Gm (origem, destino) (aumentos, sem) = Inr (a1, s1)"
    and r: "efold (comparar_par G Gm) ps (a1, s1) = Inr (aumentos', sem')"
    unfolding p by (cases "comparar_par G Gm (origem, destino) (aumentos, sem)") auto
  note st = comparar_par_step[OF s1] and ih = Cons.IH[OF r]
  show ?case
  proof (cases "origem < destino")
    case True
    then show ?thesis using st ih unfolding p
      by (cases "aumento_par G Gm (origem, destino)") (simp_all add: List.map_filter_simps)
  next
    case False
    then show ?thesis using st ih unfolding p by (simp add: List.map_filter_simps)
  qed
qed

lemma impacto_distancias_value:
  assumes "impacto_distancias G Gm = Inr (aumentos, sem)"
  shows "aumentos = List.map_filter (aumento_par G Gm) (pares_amostra G)"
    and "sem = length (filter (par_desconectado G Gm) (pares_amostra G))"
  using efold_comparar_par[OF assms[unfolded impacto_distancias_def]]
  by (simp_all add: pares_amostra_def)

lemma nonneg_weights_iff: "nonneg_weights G \<longleftrightarrow> (\<forall>w \<in> weights_of G. 0 \<le> w)"
  unfolding nonneg_weights_def weights_of_def by fast

lemma set_update_subset: "set (AList.update k v al) \<subseteq> insert (k, v) (set al)"
  by (induction al) auto

lemma set_delete_subset: "set (AList.delete k al) \<subseteq> set al"
  by (induction al) auto

lemma weights_of_update:
  "weights_of (AList.update k d G) \<subseteq> weights_of G \<union> snd ` set d"
proof
  fix w assume "w \<in> weights_of (AList.update k d G)"
  then obtain n dd m where nd: "(n, dd) \<in> set (AList.update k d G)" and mw: "(m, w) \<in> set dd"
    unfolding weights_of_def by blast
  from nd set_update_subset[of k d G] have "(n, dd) = (k, d) \<or> (n, dd) \<in> set G" by blast
  then show "w \<in> weights_of G \<union> snd ` set d"
  proof
    assume "(n, dd) = (k, d)"
    then have "(m, w) \<in> set d" using mw by simp
    then show ?thesis by force
  next
    assume "(n, dd) \<in> set G"
    then have "w \<in> weights_of G" using mw unfolding weights_of_def by blast
    then show ?thesis by simp
  qed
qed

lemma weights_of_nbrs: "snd ` set (nbrs G n) \<subseteq> weights_of G"
proof (cases "map_of G n")
  case None
  then show ?thesis by (simp add: nbrs_def)
next
  case (Some d)
  then have "(n, d) \<in> set G" by (rule map_of_SomeD)
  then have "snd ` set d \<subseteq> weights_of G" unfolding weights_of_def by force
  then show ?thesis using Some by (simp add: nbrs_def)
qed

lemma weights_of_add_node: "weights_of (add_node G n) = weights_of G"
  unfolding weights_of_def add_node_def by auto

lemma weights_of_update_nbrs:
  "weights_of (AList.update k (AList.update m w (nbrs G k)) G) \<subseteq> insert w (weights_of G)"
proof -
  have "snd ` set (AList.update m w (nbrs G k)) \<subseteq> insert w (snd ` set (nbrs G k))"
    using set_update_subset[of m w "nbrs G k"] by force
  with weights_of_nbrs[of G k] weights_of_update[of k "AList.update m w (nbrs G k)" G]
  show ?thesis by blast
qed

lemma weights_of_add_edge: "weights_of (add_edge G u v w) \<subseteq> insert w (weights_of G)"
proof -
  let ?H = "add_node (add_node G u) v"
  let ?G3 = "AList.update u (AList.update v w (nbrs ?H u)) ?H"
  have "weights_of ?G3 \<subseteq> insert w (weights_of ?H)" by (rule weights_of_update_nbrs)
  moreover have "weights_of (AList.update v (AList.update u w (nbrs ?G3 v)) ?G3) \<subseteq> insert w (weights_of ?G3)"
    by (rule weights_of_update_nbrs)
  ultimately have "weights_of (add_edge G u v w) \<subseteq> insert w (weights_of ?H)"
    unfolding add_edge_def Let_def by blast
  then show ?thesis by (simp add: weights_of_add_node)
qed

lemma weights_of_fold_add_edge:
  assumes "\<And>u v w. (u, v, w) \<in> set T \<Longrightarrow> w \<in> W" and "weights_of H \<subseteq> W"
  shows "weights_of (fold (\<lambda>(u, v, w) H. add_edge H u v w) T H) \<subseteq> W"
  using assms
proof (induction T arbitrary: H)
  case Nil
  then show ?case by simp
next
  case (Cons t T)
  obtain u v w where t: "t = (u, v, w)" by (cases t)
  have "w \<in> W" by (rule Cons.prems(1)[of u v w]) (simp add: t)
  then have h: "weights_of (add_edge H u v w) \<subseteq> W"
    using weights_of_add_edge[of H u v w] Cons.prems(2) by blast
  have f: "fold (\<lambda>(u, v, w) H. add_edge H u v w) (t # T) H
      = fold (\<lambda>(u, v, w) H. add_edge H u v w) T (add_edge H u v w)" by (simp add: t)
  show ?case unfolding f
  proof (rule Cons.IH[OF _ h])
    show "z \<in> W" if "(x, y, z) \<in> set T" for x y z
      by (rule Cons.prems(1)[of x y z]) (simp add: that)
  qed
qed

lemma weights_of_copy: "weights_of (copy G) \<subseteq> weights_of G"
  unfolding copy_def
proof (rule weights_of_fold_add_edge)
  show "w \<in> weights_of G" if "(u, v, w) \<in> set (triples G)" for u v w
    using that unfolding weights_of_def by auto
  show "weights_of (map (\<lambda>(n, d). (n, [])) G) \<subseteq> weights_of G"
    unfolding weights_of_def by auto
qed

lemma weights_of_update_delete:
  "weights_of (AList.update k (AList.delete m (nbrs G k)) G) \<subseteq> weights_of G"
proof -
  have "snd ` set (AList.delete m (nbrs G k)) \<subseteq> snd ` set (nbrs G k)"
    using set_delete_subset[of m "nbrs G k"] by (rule image_mono)
  with weights_of_nbrs[of G k] weights_of_update[of k "AList.delete m (nbrs G k)" G]
  show ?thesis by blast
qed

lemma weights_of_remove_edge:
  assumes "remove_edge G u v = Inr G'"
  shows "weights_of G' \<subseteq> weights_of G"
proof -
  let ?G1 = "AList.update u (AList.delete v (nbrs G u)) G"
  have g1: "weights_of ?G1 \<subseteq> weights_of G" by (rule weights_of_update_delete)
  from assms have "G' = ?G1 \<or> G' = AList.update v (AList.delete u (nbrs ?G1 v)) ?G1"
    by (auto simp: remove_edge_def Let_def split: if_splits)
  then show ?thesis
  proof
    assume "G' = ?G1" with g1 show ?thesis by simp
  next
    assume "G' = AList.update v (AList.delete u (nbrs ?G1 v)) ?G1"
    then have "weights_of G' \<subseteq> weights_of ?G1" using weights_of_update_delete[of v u ?G1] by simp
    with g1 show ?thesis by blast
  qed
qed

lemma nonneg_weights_removed_copy:
  assumes "nonneg_weights G" "remove_edge (copy G) u v = Inr Gm"
  shows "nonneg_weights Gm"
  using assms(1) weights_of_remove_edge[OF assms(2)] weights_of_copy[of G]
  unfolding nonneg_weights_iff by blast

lemma has_node_iff: "has_node G n \<longleftrightarrow> n \<in> set (graph_nodes G)"
  by (simp add: has_node_def graph_nodes_def map_of_eq_None_iff)

lemma pares_amostra_mem:
  assumes "(a, b) \<in> set (pares_amostra G)"
  shows "a < b" and "a \<in> set (graph_nodes G)" and "b \<in> set (graph_nodes G)"
proof -
  from assms show "a < b" by (simp add: pares_amostra_def)
  from assms have "a \<in> set (nos_amostra G)" "b \<in> set (nos_amostra G)" by (simp_all add: pares_amostra_def)
  then show "a \<in> set (graph_nodes G)" and "b \<in> set (graph_nodes G)"
    unfolding nos_amostra_def by (auto dest: in_set_takeD)
qed

lemma par_desconectado_reach:
  assumes nn: "nonneg_weights G" and nm: "nonneg_weights Gm"
    and nodes: "graph_nodes Gm = graph_nodes G" and p: "(a, b) \<in> set (pares_amostra G)"
  shows "par_desconectado G Gm (a, b) \<longleftrightarrow> b \<in> reach G a \<and> b \<notin> reach Gm a"
proof -
  note m = pares_amostra_mem[OF p]
  have ne: "a \<noteq> b" using m(1) by simp
  have hG: "has_node G a" using m(2) by (simp add: has_node_iff)
  have hM: "has_node Gm a" using m(2) nodes by (simp add: has_node_iff)
  note rG = shortest_path_length_reach[OF nn hG ne] and rM = shortest_path_length_reach[OF nm hM ne]
  show ?thesis
  proof (cases "b \<in> reach G a")
    case True
    with rG obtain d where d: "shortest_path_length G a b = Inr d" by blast
    show ?thesis
    proof (cases "b \<in> reach Gm a")
      case t: True
      with rM obtain d' where "shortest_path_length Gm a b = Inr d'" by blast
      with t True show ?thesis by (simp add: par_desconectado_def)
    next
      case False
      with rM have "shortest_path_length Gm a b = Inl NetworkXNoPath" by blast
      with False True d show ?thesis by (simp add: par_desconectado_def)
    qed
  next
    case False
    with rG have "shortest_path_length G a b = Inl NetworkXNoPath" by blast
    with False show ?thesis by (simp add: par_desconectado_def)
  qed
qed

lemma aumento_par_reach:
  assumes nn: "nonneg_weights G" and nm: "nonneg_weights Gm"
    and nodes: "graph_nodes Gm = graph_nodes G" and p: "(a, b) \<in> set (pares_amostra G)"
    and some: "aumento_par G Gm (a, b) \<noteq> None"
  shows "b \<in> reach G a \<and> b \<in> reach Gm a"
proof -
  note m = pares_amostra_mem[OF p]
  have ne: "a \<noteq> b" using m(1) by simp
  have hG: "has_node G a" using m(2) by (simp add: has_node_iff)
  have hM: "has_node Gm a" using m(2) nodes by (simp add: has_node_iff)
  note rG = shortest_path_length_reach[OF nn hG ne] and rM = shortest_path_length_reach[OF nm hM ne]
  from some obtain x y where "shortest_path_length G a b = Inr x" "shortest_path_length Gm a b = Inr y"
    unfolding aumento_par_def by (auto split: sum.splits)
  with rG rM show ?thesis by auto
qed

lemma dj_optD:
  assumes "dj_opt G s R st"
  shows "\<And>u x. map_of (dj_seen st) u = Some x \<Longrightarrow> \<exists>p. last (s # p) = u \<and> walk_weight G s p = Some x"
    and "\<And>x c u. (x, c, u) \<in> set (dj_fringe st) \<Longrightarrow> \<exists>p. last (s # p) = u \<and> walk_weight G s p = Some x"
    and "\<And>u x. map_of (dj_seen st) u = Some x \<Longrightarrow> u \<notin> keys (dj_dist st) \<Longrightarrow>
           \<exists>c. (x, c, u) \<in> set (dj_fringe st)"
    and "\<And>v dv u c. (v, dv) \<in> set (dj_dist st) \<Longrightarrow> (u, c) \<in> R v \<Longrightarrow> u \<notin> keys (dj_dist st) \<Longrightarrow>
           \<exists>su. map_of (dj_seen st) u = Some su \<and> su \<le> dv + c"
    and "\<And>v dv. (v, dv) \<in> set (dj_dist st) \<Longrightarrow> shortest_distance G s v dv"
    and "\<exists>x. map_of (dj_seen st) s = Some x \<and> x \<le> 0"
proof -
  note x = assms[unfolded dj_opt_def]
  note a = x[THEN conjunct1]
  note b = x[THEN conjunct2, THEN conjunct1]
  note c = x[THEN conjunct2, THEN conjunct2, THEN conjunct1]
  note d = x[THEN conjunct2, THEN conjunct2, THEN conjunct2, THEN conjunct1]
  note e = x[THEN conjunct2, THEN conjunct2, THEN conjunct2, THEN conjunct2, THEN conjunct1]
  note f = x[THEN conjunct2, THEN conjunct2, THEN conjunct2, THEN conjunct2, THEN conjunct2]
  show "\<And>u x. map_of (dj_seen st) u = Some x \<Longrightarrow> \<exists>p. last (s # p) = u \<and> walk_weight G s p = Some x"
    using a by blast
  show "\<And>x c u. (x, c, u) \<in> set (dj_fringe st) \<Longrightarrow> \<exists>p. last (s # p) = u \<and> walk_weight G s p = Some x"
    using b by blast
  show "\<And>u x. map_of (dj_seen st) u = Some x \<Longrightarrow> u \<notin> keys (dj_dist st) \<Longrightarrow>
           \<exists>c. (x, c, u) \<in> set (dj_fringe st)"
    using c by blast
  show "\<And>v dv u c. (v, dv) \<in> set (dj_dist st) \<Longrightarrow> (u, c) \<in> R v \<Longrightarrow> u \<notin> keys (dj_dist st) \<Longrightarrow>
           \<exists>su. map_of (dj_seen st) u = Some su \<and> su \<le> dv + c"
    using d by blast
  show "\<And>v dv. (v, dv) \<in> set (dj_dist st) \<Longrightarrow> shortest_distance G s v dv"
    using e by blast
  show "\<exists>x. map_of (dj_seen st) s = Some x \<and> x \<le> 0" using f .
qed

lemma dj_optI:
  assumes "\<And>u x. map_of (dj_seen st) u = Some x \<Longrightarrow> \<exists>p. last (s # p) = u \<and> walk_weight G s p = Some x"
    and "\<And>x c u. (x, c, u) \<in> set (dj_fringe st) \<Longrightarrow> \<exists>p. last (s # p) = u \<and> walk_weight G s p = Some x"
    and "\<And>u x. map_of (dj_seen st) u = Some x \<Longrightarrow> u \<notin> keys (dj_dist st) \<Longrightarrow>
           \<exists>c. (x, c, u) \<in> set (dj_fringe st)"
    and "\<And>v dv u c. (v, dv) \<in> set (dj_dist st) \<Longrightarrow> (u, c) \<in> R v \<Longrightarrow> u \<notin> keys (dj_dist st) \<Longrightarrow>
           \<exists>su. map_of (dj_seen st) u = Some su \<and> su \<le> dv + c"
    and "\<And>v dv. (v, dv) \<in> set (dj_dist st) \<Longrightarrow> shortest_distance G s v dv"
    and "\<exists>x. map_of (dj_seen st) s = Some x \<and> x \<le> 0"
  shows "dj_opt G s R st"
  unfolding dj_opt_def
proof (intro conjI allI impI)
  fix u x assume "map_of (dj_seen st) u = Some x"
  then show "\<exists>p. last (s # p) = u \<and> walk_weight G s p = Some x" by (rule assms(1))
next
  fix x c u assume "(x, c, u) \<in> set (dj_fringe st)"
  then show "\<exists>p. last (s # p) = u \<and> walk_weight G s p = Some x" by (rule assms(2))
next
  fix u x assume "map_of (dj_seen st) u = Some x \<and> u \<notin> keys (dj_dist st)"
  then show "\<exists>c. (x, c, u) \<in> set (dj_fringe st)" using assms(3)[of u x] by simp
next
  fix v dv u c assume "(v, dv) \<in> set (dj_dist st) \<and> (u, c) \<in> R v \<and> u \<notin> keys (dj_dist st)"
  then show "\<exists>su. map_of (dj_seen st) u = Some su \<and> su \<le> dv + c" using assms(4)[of v dv u c] by simp
next
  fix v dv assume "(v, dv) \<in> set (dj_dist st)"
  then show "shortest_distance G s v dv" by (rule assms(5))
next
  show "\<exists>x. map_of (dj_seen st) s = Some x \<and> x \<le> 0" by (rule assms(6))
qed

lemma walk_weight_Cons:
  assumes "walk_weight G a (b # p) = Some x"
  obtains w y where "edge_weight G a b = Some w" "walk_weight G b p = Some y" "x = w + y"
  using assms by (auto split: option.splits)

lemma walk_weight_snoc:
  assumes "walk_weight G a p = Some x" and "edge_weight G (last (a # p)) b = Some c"
  shows "walk_weight G a (p @ [b]) = Some (x + c)"
  using assms
proof (induction p arbitrary: a x)
  case Nil
  then show ?case by simp
next
  case (Cons q p)
  from Cons.prems(1) obtain w y where w: "edge_weight G a q = Some w"
    and y: "walk_weight G q p = Some y" and x: "x = w + y" by (rule walk_weight_Cons)
  have "edge_weight G (last (q # p)) b = Some c" using Cons.prems(2) by simp
  from Cons.IH[OF y this] have "walk_weight G q (p @ [b]) = Some (y + c)" .
  then show ?case using w x by simp
qed

lemma edge_weight_nonneg:
  assumes "nonneg_weights G" "edge_weight G a b = Some w"
  shows "0 \<le> w"
proof -
  from assms(2) have "(b, w) \<in> set (nbrs G a)" unfolding edge_weight_def by (rule map_of_SomeD)
  with assms(1) show ?thesis by (rule nonneg_weights_nbrs)
qed

lemma walk_weight_nonneg:
  assumes "nonneg_weights G" "walk_weight G a p = Some x"
  shows "0 \<le> x"
  using assms(2)
proof (induction p arbitrary: a x)
  case Nil
  then show ?case by simp
next
  case (Cons q p)
  from Cons.prems obtain w y where w: "edge_weight G a q = Some w"
    and y: "walk_weight G q p = Some y" and x: "x = w + y" by (rule walk_weight_Cons)
  from edge_weight_nonneg[OF assms(1) w] Cons.IH[OF y] x show ?case by simp
qed

lemma nbrs_edge_weight:
  assumes "distinct_nbrs G" "(u, c) \<in> set (nbrs G v)"
  shows "edge_weight G v u = Some c"
proof -
  have "distinct (map fst (nbrs G v))" using assms(1) unfolding distinct_nbrs_def by simp
  then show ?thesis unfolding edge_weight_def using assms(2) by simp
qed

lemma wf_graph_distinct_nbrs: "wf_graph G \<Longrightarrow> distinct_nbrs G"
  unfolding distinct_nbrs_def using wf_graph_nbrs_distinct by blast

lemma shortest_distanceD:
  assumes "shortest_distance G a b d"
  shows "\<exists>p. last (a # p) = b \<and> walk_weight G a p = Some d"
    and "\<And>p x. last (a # p) = b \<Longrightarrow> walk_weight G a p = Some x \<Longrightarrow> d \<le> x"
  using assms unfolding shortest_distance_def by blast+

lemma keys_mem: "k \<in> keys xs \<longleftrightarrow> (\<exists>v. (k, v) \<in> set xs)"
  unfolding keys_def by force

text \<open>Every walk that leaves the finished nodes passes a fringe entry that is no longer.\<close>

lemma fringe_bound:
  assumes opt: "dj_opt G s (\<lambda>v. set (nbrs G v)) st" and nn: "nonneg_weights G"
    and a: "(a, da) \<in> set (dj_dist st)" and q: "walk_weight G a q = Some x"
    and l: "last (a # q) \<notin> keys (dj_dist st)"
  shows "\<exists>e \<in> set (dj_fringe st). fst e \<le> da + x"
  using a q l
proof (induction q arbitrary: a da x)
  case Nil
  then have "a \<notin> keys (dj_dist st)" by simp
  with Nil.prems(1) show ?case by (auto simp: keys_mem)
next
  case (Cons b q)
  note o = dj_optD[OF opt]
  from Cons.prems(2) obtain c y where c: "edge_weight G a b = Some c"
    and y: "walk_weight G b q = Some y" and x: "x = c + y" by (rule walk_weight_Cons)
  have bc: "(b, c) \<in> set (nbrs G a)" using c unfolding edge_weight_def by (rule map_of_SomeD)
  have y0: "0 \<le> y" by (rule walk_weight_nonneg[OF nn y])
  show ?case
  proof (cases "b \<in> keys (dj_dist st)")
    case True
    then obtain db where db: "(b, db) \<in> set (dj_dist st)" by (auto simp: keys_mem)
    from shortest_distanceD(1)[OF o(5)[OF Cons.prems(1)]] obtain p where
      p: "last (s # p) = a" "walk_weight G s p = Some da" by blast
    have "walk_weight G s (p @ [b]) = Some (da + c)"
      by (rule walk_weight_snoc[OF p(2)]) (simp only: p(1) c)
    moreover have "last (s # p @ [b]) = b" by simp
    ultimately have le: "db \<le> da + c" using shortest_distanceD(2)[OF o(5)[OF db], of "p @ [b]" "da + c"] by simp
    have "last (b # q) \<notin> keys (dj_dist st)" using Cons.prems(3) by simp
    from Cons.IH[OF db y this] obtain e where "e \<in> set (dj_fringe st)" "fst e \<le> db + y" by blast
    with le x show ?thesis by (intro bexI[of _ e]) simp_all
  next
    case False
    from o(4)[OF Cons.prems(1) bc False] obtain su where su: "map_of (dj_seen st) b = Some su" "su \<le> da + c"
      by blast
    from o(3)[OF su(1) False] obtain k where "(su, k, b) \<in> set (dj_fringe st)" by blast
    moreover have "su \<le> da + x" using su(2) x y0 by simp
    ultimately show ?thesis by (intro bexI[of _ "(su, k, b)"]) simp_all
  qed
qed

lemma pop_optimal:
  assumes opt: "dj_opt G s (\<lambda>v. set (nbrs G v)) st" and nn: "nonneg_weights G"
    and pop: "heappop (dj_fringe st) = Some ((d, c, v), rest)" and v: "v \<notin> keys (dj_dist st)"
  shows "shortest_distance G s v d"
proof -
  note o = dj_optD[OF opt]
  note hp = heappop_Some[OF pop]
  have ex: "\<exists>p. last (s # p) = v \<and> walk_weight G s p = Some d" using o(2)[OF hp(1)] .
  have mn: "d \<le> x" if l: "last (s # p) = v" and w: "walk_weight G s p = Some x" for p x
  proof -
    have x0: "0 \<le> x" by (rule walk_weight_nonneg[OF nn w])
    have "\<exists>e \<in> set (dj_fringe st). fst e \<le> x"
    proof (cases "s \<in> keys (dj_dist st)")
      case True
      then obtain ds where ds: "(s, ds) \<in> set (dj_dist st)" by (auto simp: keys_mem)
      have "ds \<le> 0" using shortest_distanceD(2)[OF o(5)[OF ds], of "[]" 0] by simp
      moreover have "last (s # p) \<notin> keys (dj_dist st)" using l v by simp
      from fringe_bound[OF opt nn ds w this] obtain e where "e \<in> set (dj_fringe st)" "fst e \<le> ds + x"
        by blast
      ultimately show ?thesis by (intro bexI[of _ e]) simp_all
    next
      case False
      from o(6) obtain x0' where s0: "map_of (dj_seen st) s = Some x0'" "x0' \<le> 0" by blast
      from o(3)[OF s0(1) False] obtain k where "(x0', k, s) \<in> set (dj_fringe st)" by blast
      then show ?thesis using s0(2) x0 by (intro bexI[of _ "(x0', k, s)"]) simp_all
    qed
    then obtain e where e: "e \<in> set (dj_fringe st)" "fst e \<le> x" by blast
    from heappop_least[OF pop e(1)] e(2) show ?thesis by simp
  qed
  show ?thesis unfolding shortest_distance_def using ex mn by blast
qed

lemma dj_relax_cases2:
  assumes "dj_relax dv (u, cost) st = Inr st'"
  shows "(st' = st \<and> (u \<in> keys (dj_dist st) \<or> (\<exists>x. map_of (dj_seen st) u = Some x \<and> x \<le> dv + cost))) \<or>
         (st' = dj_push (dv + cost) u st \<and> u \<notin> keys (dj_dist st) \<and>
          (\<forall>x. map_of (dj_seen st) u = Some x \<longrightarrow> dv + cost < x))"
proof (cases "map_of (dj_dist st) u")
  case None
  then have nd: "u \<notin> keys (dj_dist st)" by (simp add: map_of_None_keys)
  show ?thesis
  proof (cases "map_of (dj_seen st) u")
    case n2: None
    then have "st' = dj_push (dv + cost) u st" using assms None by (simp add: dj_relax_def Let_def)
    with nd n2 show ?thesis by simp
  next
    case (Some s)
    show ?thesis
    proof (cases "dv + cost < s")
      case True
      then have "st' = dj_push (dv + cost) u st" using assms None Some by (simp add: dj_relax_def Let_def)
      with nd Some True show ?thesis by simp
    next
      case False
      then have "st' = st" using assms None Some by (simp add: dj_relax_def Let_def)
      with Some False show ?thesis by simp
    qed
  qed
next
  case (Some ud)
  then have in_dist: "u \<in> keys (dj_dist st)" by (rule map_of_Some_key)
  have "st' = st" using assms Some by (simp add: dj_relax_def Let_def split: if_splits)
  with in_dist show ?thesis by simp
qed

lemma distinct_keys_eq:
  assumes "distinct (map fst xs)" "(k, a) \<in> set xs" "(k, b) \<in> set xs"
  shows "a = b"
  using assms by (metis map_of_is_SomeI option.inject)

lemma dj_opt_relax:
  assumes opt: "dj_opt G s R st" and wf: "distinct_nbrs G"
    and dd: "distinct (map fst (dj_dist st))"
    and vd: "(v, d) \<in> set (dj_dist st)" and uc: "(u, c) \<in> set (nbrs G v)"
    and r: "dj_relax d (u, c) st = Inr st'"
  shows "dj_opt G s (R(v := insert (u, c) (R v))) st'"
proof -
  note o = dj_optD[OF opt]
  have ew: "edge_weight G v u = Some c" by (rule nbrs_edge_weight[OF wf uc])
  have walk: "\<exists>p. last (s # p) = u \<and> walk_weight G s p = Some (d + c)"
  proof -
    from shortest_distanceD(1)[OF o(5)[OF vd]] obtain p where
      p: "last (s # p) = v" "walk_weight G s p = Some d" by blast
    have "walk_weight G s (p @ [u]) = Some (d + c)"
      by (rule walk_weight_snoc[OF p(2)]) (simp only: p(1) ew)
    moreover have "last (s # p @ [u]) = u" by simp
    ultimately show ?thesis by blast
  qed
  from dj_relax_cases2[OF r]
  show ?thesis
  proof
    assume a: "st' = st \<and> (u \<in> keys (dj_dist st) \<or> (\<exists>x. map_of (dj_seen st) u = Some x \<and> x \<le> d + c))"
    then have eq: "st' = st" by simp
    show ?thesis unfolding eq
    proof (rule dj_optI)
      show "\<And>u x. map_of (dj_seen st) u = Some x \<Longrightarrow> \<exists>p. last (s # p) = u \<and> walk_weight G s p = Some x"
        by (rule o(1))
      show "\<And>x c u. (x, c, u) \<in> set (dj_fringe st) \<Longrightarrow> \<exists>p. last (s # p) = u \<and> walk_weight G s p = Some x"
        by (rule o(2))
      show "\<And>u x. map_of (dj_seen st) u = Some x \<Longrightarrow> u \<notin> keys (dj_dist st) \<Longrightarrow>
           \<exists>c. (x, c, u) \<in> set (dj_fringe st)" by (rule o(3))
      show "\<exists>su. map_of (dj_seen st) u' = Some su \<and> su \<le> dv' + c'"
        if m: "(v', dv') \<in> set (dj_dist st)" and e: "(u', c') \<in> (R(v := insert (u, c) (R v))) v'"
          and n: "u' \<notin> keys (dj_dist st)" for v' dv' u' c'
      proof (cases "v' = v \<and> (u', c') = (u, c)")
        case True
        then have "dv' = d" using distinct_keys_eq[OF dd m[unfolded True[THEN conjunct1]] vd] by simp
        moreover have "u \<notin> keys (dj_dist st)" using n True by simp
        ultimately show ?thesis using a True by auto
      next
        case False
        then have "(u', c') \<in> R v'" using e by (auto split: if_splits)
        from o(4)[OF m this n] show ?thesis .
      qed
      show "\<And>v dv. (v, dv) \<in> set (dj_dist st) \<Longrightarrow> shortest_distance G s v dv" by (rule o(5))
      show "\<exists>x. map_of (dj_seen st) s = Some x \<and> x \<le> 0" by (rule o(6))
    qed
  next
    assume a: "st' = dj_push (d + c) u st \<and> u \<notin> keys (dj_dist st) \<and>
          (\<forall>x. map_of (dj_seen st) u = Some x \<longrightarrow> d + c < x)"
    then have eq: "st' = dj_push (d + c) u st" and und: "u \<notin> keys (dj_dist st)"
      and lt: "\<And>x. map_of (dj_seen st) u = Some x \<Longrightarrow> d + c < x" by simp_all
    have ds: "dj_dist st' = dj_dist st" unfolding eq by (simp add: dj_push_def)
    have sn: "map_of (dj_seen st') w = (if w = u then Some (d + c) else map_of (dj_seen st) w)" for w
      unfolding eq by (simp add: dj_push_def update_conv')
    have fr: "set (dj_fringe st') = insert (d + c, dj_count st, u) (set (dj_fringe st))"
      unfolding eq by (simp add: dj_push_def)
    show ?thesis
    proof (rule dj_optI)
      show "\<exists>p. last (s # p) = w \<and> walk_weight G s p = Some x" if "map_of (dj_seen st') w = Some x" for w x
      proof (cases "w = u")
        case True
        with that sn[of w] have "x = d + c" by simp
        with walk True show ?thesis by simp
      next
        case False
        with that sn[of w] have "map_of (dj_seen st) w = Some x" by simp
        then show ?thesis by (rule o(1))
      qed
      show "\<exists>p. last (s # p) = w \<and> walk_weight G s p = Some x" if "(x, k, w) \<in> set (dj_fringe st')" for x k w
      proof (cases "(x, k, w) \<in> set (dj_fringe st)")
        case True
        then show ?thesis by (rule o(2))
      next
        case False
        with that fr have "x = d + c" "w = u" by simp_all
        with walk show ?thesis by simp
      qed
      show "\<exists>k. (x, k, w) \<in> set (dj_fringe st')"
        if "map_of (dj_seen st') w = Some x" and "w \<notin> keys (dj_dist st')" for w x
      proof (cases "w = u")
        case True
        with that(1) sn[of w] have "x = d + c" by simp
        with True fr show ?thesis by blast
      next
        case False
        with that(1) sn[of w] have "map_of (dj_seen st) w = Some x" by simp
        from o(3)[OF this] that(2) ds obtain k where "(x, k, w) \<in> set (dj_fringe st)" by auto
        with fr show ?thesis by blast
      qed
      show "\<exists>su. map_of (dj_seen st') u' = Some su \<and> su \<le> dv' + c'"
        if m: "(v', dv') \<in> set (dj_dist st')" and e: "(u', c') \<in> (R(v := insert (u, c) (R v))) v'"
          and n: "u' \<notin> keys (dj_dist st')" for v' dv' u' c'
      proof (cases "v' = v \<and> (u', c') = (u, c)")
        case True
        have m': "(v, dv') \<in> set (dj_dist st)" using m True ds by simp
        have "dv' = d" using distinct_keys_eq[OF dd m' vd] .
        then show ?thesis using True sn[of u] by simp
      next
        case False
        then have e': "(u', c') \<in> R v'" using e by (auto split: if_splits)
        have m': "(v', dv') \<in> set (dj_dist st)" using m ds by simp
        have n': "u' \<notin> keys (dj_dist st)" using n ds by simp
        from o(4)[OF m' e' n'] obtain su where su: "map_of (dj_seen st) u' = Some su" "su \<le> dv' + c'"
          by blast
        show ?thesis
        proof (cases "u' = u")
          case True
          from lt[OF su(1)[unfolded True]] su(2) have "d + c \<le> dv' + c'" by simp
          then show ?thesis using True sn[of u] by simp
        next
          case False
          then show ?thesis using su sn[of u'] by simp
        qed
      qed
      show "shortest_distance G s w dw" if "(w, dw) \<in> set (dj_dist st')" for w dw
        using that ds o(5)[of w dw] by simp
      show "\<exists>x. map_of (dj_seen st') s = Some x \<and> x \<le> 0"
      proof (cases "s = u")
        case True
        from o(6) obtain x where x: "map_of (dj_seen st) s = Some x" "x \<le> 0" by blast
        from lt[OF x(1)[unfolded True]] x(2) have "d + c \<le> 0" by simp
        then show ?thesis using True sn[of u] by simp
      next
        case False
        then show ?thesis using o(6) sn[of s] by simp
      qed
    qed
  qed
qed

lemma dj_relax_dist:
  assumes "dj_relax d e st = Inr st'"
  shows "dj_dist st' = dj_dist st"
  using dj_relax_props(1)[OF assms] .

lemma dj_opt_efold:
  assumes "dj_opt G s R st" and wf: "distinct_nbrs G"
    and "distinct (map fst (dj_dist st))"
    and "(v, d) \<in> set (dj_dist st)" and "set es \<subseteq> set (nbrs G v)"
    and "efold (dj_relax d) es st = Inr st'"
  shows "dj_opt G s (R(v := R v \<union> set es)) st'"
  using assms(1,3,4,5,6)
proof (induction es arbitrary: st R)
  case Nil
  then show ?case by simp
next
  case (Cons e es)
  obtain u c where e: "e = (u, c)" by (cases e)
  from Cons.prems(5) obtain st1 where s1: "dj_relax d (u, c) st = Inr st1"
    and r: "efold (dj_relax d) es st1 = Inr st'"
    unfolding e by (cases "dj_relax d (u, c) st") simp_all
  have uc: "(u, c) \<in> set (nbrs G v)" using Cons.prems(4) e by simp
  have o1: "dj_opt G s (R(v := insert (u, c) (R v))) st1"
    by (rule dj_opt_relax[OF Cons.prems(1) wf Cons.prems(2) Cons.prems(3) uc s1])
  have d1: "dj_dist st1 = dj_dist st" by (rule dj_relax_dist[OF s1])
  have eq: "(R(v := insert (u, c) (R v)))(v := (R(v := insert (u, c) (R v))) v \<union> set es)
      = R(v := R v \<union> set (e # es))" unfolding e by simp
  have "dj_opt G s ((R(v := insert (u, c) (R v)))(v := (R(v := insert (u, c) (R v))) v \<union> set es)) st'"
  proof (rule Cons.IH[OF o1 _ _ _ r])
    show "distinct (map fst (dj_dist st1))" unfolding d1 by (rule Cons.prems(2))
    show "(v, d) \<in> set (dj_dist st1)" unfolding d1 by (rule Cons.prems(3))
    show "set es \<subseteq> set (nbrs G v)" using Cons.prems(4) by simp
  qed
  then show ?case unfolding eq .
qed

lemma in_rest:
  assumes "heappop q = Some (m, rest)" "x \<in> set q" "x \<noteq> m"
  shows "x \<in> set rest"
proof -
  from assms(1) have "rest = remove1 m q"
    by (cases q) (auto simp: heappop_def Let_def simp del: remove1.simps)
  with assms(2,3) show ?thesis by (simp add: in_set_remove1)
qed

lemma dj_opt_finish:
  assumes opt: "dj_opt G s (\<lambda>v. set (nbrs G v)) st" and nn: "nonneg_weights G"
    and pop: "heappop (dj_fringe st) = Some ((d, c, v), rest)" and v: "v \<notin> keys (dj_dist st)"
  shows "dj_opt G s ((\<lambda>v. set (nbrs G v))(v := {})) (st\<lparr>dj_fringe := rest, dj_dist := dj_dist st @ [(v, d)]\<rparr>)"
proof -
  let ?st1 = "st\<lparr>dj_fringe := rest, dj_dist := dj_dist st @ [(v, d)]\<rparr>"
  note o = dj_optD[OF opt]
  note hp = heappop_Some[OF pop]
  have k1: "keys (dj_dist ?st1) = insert v (keys (dj_dist st))" by (simp add: keys_append keys_Cons keys_Nil)
  show ?thesis
  proof (rule dj_optI)
    show "\<exists>p. last (s # p) = w \<and> walk_weight G s p = Some x" if "map_of (dj_seen ?st1) w = Some x" for w x
      using that o(1)[of w x] by simp
    show "\<exists>p. last (s # p) = w \<and> walk_weight G s p = Some x" if "(x, k, w) \<in> set (dj_fringe ?st1)" for x k w
    proof -
      from that hp(3) have "(x, k, w) \<in> set (dj_fringe st)" by auto
      then show ?thesis by (rule o(2))
    qed
    show "\<exists>k. (x, k, w) \<in> set (dj_fringe ?st1)"
      if "map_of (dj_seen ?st1) w = Some x" and "w \<notin> keys (dj_dist ?st1)" for w x
    proof -
      from that(2) have wv: "w \<noteq> v" and wd: "w \<notin> keys (dj_dist st)" unfolding k1 by simp_all
      from that(1) have "map_of (dj_seen st) w = Some x" by simp
      from o(3)[OF this wd] obtain k where k: "(x, k, w) \<in> set (dj_fringe st)" by blast
      have "(x, k, w) \<noteq> (d, c, v)" using wv by simp
      from in_rest[OF pop k this] show ?thesis by auto
    qed
    show "\<exists>su. map_of (dj_seen ?st1) u' = Some su \<and> su \<le> dv' + c'"
      if m: "(v', dv') \<in> set (dj_dist ?st1)" and e: "(u', c') \<in> ((\<lambda>v. set (nbrs G v))(v := {})) v'"
        and n: "u' \<notin> keys (dj_dist ?st1)" for v' dv' u' c'
    proof -
      from e have ne: "v' \<noteq> v" and e': "(u', c') \<in> set (nbrs G v')" by (auto split: if_splits)
      from m ne have m': "(v', dv') \<in> set (dj_dist st)" by simp
      from n have n': "u' \<notin> keys (dj_dist st)" unfolding k1 by simp
      from o(4)[OF m' e' n'] show ?thesis by simp
    qed
    show "shortest_distance G s w dw" if "(w, dw) \<in> set (dj_dist ?st1)" for w dw
    proof (cases "(w, dw) \<in> set (dj_dist st)")
      case True
      then show ?thesis by (rule o(5))
    next
      case False
      with that have "w = v" "dw = d" by simp_all
      then show ?thesis using pop_optimal[OF opt nn pop v] by simp
    qed
    show "\<exists>x. map_of (dj_seen ?st1) s = Some x \<and> x \<le> 0" using o(6) by simp
  qed
qed

lemma dj_opt_step:
  assumes opt: "dj_opt G s (\<lambda>v. set (nbrs G v)) st" and wf: "distinct_nbrs G" and nn: "nonneg_weights G"
    and dd: "distinct (map fst (dj_dist st))"
    and step: "dj_step G tgt st = Inr st'"
  shows "dj_opt G s (\<lambda>v. set (nbrs G v)) st'"
proof (cases rule: dj_step_cases[of st G tgt])
  case empty
  with step show ?thesis by simp
next
  case (stale d c v rest)
  then have st': "st' = st\<lparr>dj_fringe := rest\<rparr>" using step by simp
  note o = dj_optD[OF opt]
  note hp = heappop_Some[OF stale(1)]
  show ?thesis unfolding st'
  proof (rule dj_optI)
    show "\<exists>p. last (s # p) = w \<and> walk_weight G s p = Some x"
      if "map_of (dj_seen (st\<lparr>dj_fringe := rest\<rparr>)) w = Some x" for w x
      using that o(1)[of w x] by simp
    show "\<exists>p. last (s # p) = w \<and> walk_weight G s p = Some x"
      if "(x, k, w) \<in> set (dj_fringe (st\<lparr>dj_fringe := rest\<rparr>))" for x k w
    proof -
      from that hp(3) have "(x, k, w) \<in> set (dj_fringe st)" by auto
      then show ?thesis by (rule o(2))
    qed
    show "\<exists>k. (x, k, w) \<in> set (dj_fringe (st\<lparr>dj_fringe := rest\<rparr>))"
      if "map_of (dj_seen (st\<lparr>dj_fringe := rest\<rparr>)) w = Some x"
        and "w \<notin> keys (dj_dist (st\<lparr>dj_fringe := rest\<rparr>))" for w x
    proof -
      from that have a: "map_of (dj_seen st) w = Some x" and b: "w \<notin> keys (dj_dist st)" by simp_all
      from o(3)[OF a b] obtain k where k: "(x, k, w) \<in> set (dj_fringe st)" by blast
      have "w \<noteq> v" using b stale(2) by auto
      then have "(x, k, w) \<noteq> (d, c, v)" by simp
      from in_rest[OF stale(1) k this] show ?thesis by auto
    qed
    show "\<exists>su. map_of (dj_seen (st\<lparr>dj_fringe := rest\<rparr>)) u' = Some su \<and> su \<le> dv' + c'"
      if "(v', dv') \<in> set (dj_dist (st\<lparr>dj_fringe := rest\<rparr>))" and "(u', c') \<in> set (nbrs G v')"
        and "u' \<notin> keys (dj_dist (st\<lparr>dj_fringe := rest\<rparr>))" for v' dv' u' c'
      using that o(4)[of v' dv' u' c'] by simp
    show "shortest_distance G s w dw" if "(w, dw) \<in> set (dj_dist (st\<lparr>dj_fringe := rest\<rparr>))" for w dw
      using that o(5)[of w dw] by simp
    show "\<exists>x. map_of (dj_seen (st\<lparr>dj_fringe := rest\<rparr>)) s = Some x \<and> x \<le> 0" using o(6) by simp
  qed
next
  case (target d c v rest)
  with step show ?thesis by simp
next
  case (relax d c v rest)
  let ?st1 = "st\<lparr>dj_fringe := rest, dj_dist := dj_dist st @ [(v, d)]\<rparr>"
  from relax(4) step have r: "efold (dj_relax d) (nbrs G v) ?st1 = Inr st'"
    by (cases "efold (dj_relax d) (nbrs G v) ?st1") simp_all
  have o1: "dj_opt G s ((\<lambda>v. set (nbrs G v))(v := {})) ?st1"
    by (rule dj_opt_finish[OF opt nn relax(1) relax(2)])
  have d1: "distinct (map fst (dj_dist ?st1))" using dd relax(2) by (simp add: keys_def)
  have m1: "(v, d) \<in> set (dj_dist ?st1)" by simp
  have eq: "((\<lambda>v. set (nbrs G v))(v := {}))(v := ((\<lambda>v. set (nbrs G v))(v := {})) v \<union> set (nbrs G v))
      = (\<lambda>v. set (nbrs G v))" by auto
  from dj_opt_efold[OF o1 wf d1 m1 subset_refl r]
  have "dj_opt G s (((\<lambda>v. set (nbrs G v))(v := {}))(v := ((\<lambda>v. set (nbrs G v))(v := {})) v \<union> set (nbrs G v))) st'" .
  then show ?thesis unfolding eq .
qed

lemma dj_opt_exit:
  assumes opt: "dj_opt G s (\<lambda>v. set (nbrs G v)) st" and nn: "nonneg_weights G"
    and step: "dj_step G tgt st = Inl (Inr sp)" and m: "(w, dw) \<in> set sp"
  shows "shortest_distance G s w dw"
proof (cases rule: dj_step_cases[of st G tgt])
  case empty
  with step m dj_optD(5)[OF opt] show ?thesis by simp
next
  case (stale d c v rest)
  with step show ?thesis by simp
next
  case (target d c v rest)
  then have sp: "sp = dj_dist st @ [(v, d)]" using step by simp
  show ?thesis
  proof (cases "(w, dw) \<in> set (dj_dist st)")
    case True
    then show ?thesis by (rule dj_optD(5)[OF opt])
  next
    case False
    with m sp have "w = v" "dw = d" by simp_all
    then show ?thesis using pop_optimal[OF opt nn target(1) target(2)] by simp
  qed
next
  case (relax d c v rest)
  with step show ?thesis
    by (cases "efold (dj_relax d) (nbrs G v) (st\<lparr>dj_fringe := rest, dj_dist := dj_dist st @ [(v, d)]\<rparr>)") simp_all
qed

lemma dj_loop_opt:
  assumes "dj_opt G s (\<lambda>v. set (nbrs G v)) st" and "dj_inv G s st"
    and "distinct_nbrs G" and "nonneg_weights G"
    and "dj_loop G tgt st = Inr sp" and "(w, dw) \<in> set sp"
  shows "shortest_distance G s w dw"
  using assms
proof (induction G tgt st rule: dj_loop.induct)
  case (1 G tgt st)
  show ?case
  proof (cases "dj_step G tgt st")
    case (Inl r)
    then have "r = Inr sp" using "1.prems"(5) by (subst (asm) dj_loop.simps) simp
    with Inl have "dj_step G tgt st = Inl (Inr sp)" by simp
    from dj_opt_exit[OF "1.prems"(1) "1.prems"(4) this "1.prems"(6)] show ?thesis .
  next
    case (Inr st')
    then have l: "dj_loop G tgt st' = Inr sp" using "1.prems"(5) by (subst (asm) dj_loop.simps) simp
    have o': "dj_opt G s (\<lambda>v. set (nbrs G v)) st'"
      by (rule dj_opt_step[OF "1.prems"(1) "1.prems"(3) "1.prems"(4) dj_invD(7)[OF "1.prems"(2)] Inr])
    have i': "dj_inv G s st'" by (rule dj_inv_step[OF "1.prems"(2) Inr])
    from "1.IH"[OF Inr o' i' "1.prems"(3) "1.prems"(4) l "1.prems"(6)] show ?thesis .
  qed
qed

lemma dj_opt_init:
  "dj_opt G s R \<lparr>dj_dist = [], dj_seen = [(s, 0)], dj_fringe = [(0, 0, s)], dj_count = 1\<rparr>"
proof (rule dj_optI)
  have e: "last (s # []) = s \<and> walk_weight G s [] = Some 0" by simp
  show "\<exists>p. last (s # p) = w \<and> walk_weight G s p = Some x"
    if "map_of (dj_seen \<lparr>dj_dist = [], dj_seen = [(s, 0)], dj_fringe = [(0, 0, s)], dj_count = 1\<rparr>) w = Some x"
    for w x
  proof -
    from that have "w = s" "x = 0" by (simp_all split: if_splits)
    with e show ?thesis by blast
  qed
  show "\<exists>p. last (s # p) = w \<and> walk_weight G s p = Some x"
    if "(x, k, w) \<in> set (dj_fringe \<lparr>dj_dist = [], dj_seen = [(s, 0)], dj_fringe = [(0, 0, s)], dj_count = 1\<rparr>)"
    for x k w
  proof -
    from that have "w = s" "x = 0" by simp_all
    with e show ?thesis by blast
  qed
qed (simp_all add: keys_Nil split: if_splits)

lemma dijkstra_shortest:
  assumes "distinct_nbrs G" and "nonneg_weights G" and "dijkstra G s tgt = Inr sp" and "(w, dw) \<in> set sp"
  shows "shortest_distance G s w dw"
  by (rule dj_loop_opt[OF dj_opt_init dj_inv_init assms(1,2) assms(3)[unfolded dijkstra_def] assms(4)])

section \<open>Facts about the results of the simulation\<close>

lemma wf_graph_no_edges:
  fixes G :: graph
  assumes "distinct (map fst G)"
  shows "wf_graph (map (\<lambda>(n, d). (n, [])) G)"
proof -
  have k: "map fst (map (\<lambda>(n, d). (n, [])) G :: graph) = map fst G"
    using graph_nodes_no_edges[of G] unfolding graph_nodes_def .
  show ?thesis unfolding wf_graph_def k using assms by auto
qed

lemma wf_graph_fold_add_edge:
  "wf_graph H \<Longrightarrow> wf_graph (fold (\<lambda>(u, v, w) H. add_edge H u v w) T H)"
proof (induction T arbitrary: H)
  case Nil
  then show ?case by simp
next
  case (Cons t T)
  obtain u v w where t: "t = (u, v, w)" by (cases t)
  have "wf_graph (add_edge H u v w)" using Cons.prems by (rule wf_graph_add_edge)
  from Cons.IH[OF this] show ?case by (simp add: t)
qed

lemma wf_graph_copy:
  assumes "wf_graph G"
  shows "wf_graph (copy G)"
proof -
  have "distinct (map fst G)" using assms by (simp add: wf_graph_def)
  then have "wf_graph (map (\<lambda>(n, d). (n, [])) G)" by (rule wf_graph_no_edges)
  then show ?thesis unfolding copy_def by (rule wf_graph_fold_add_edge)
qed

lemma distinct_nbrs_update_delete:
  assumes "distinct_nbrs G"
  shows "distinct_nbrs (AList.update k (AList.delete m (nbrs G k)) G)"
  unfolding distinct_nbrs_def
proof
  fix v
  have "distinct (map fst (nbrs G k))" "distinct (map fst (nbrs G v))"
    using assms unfolding distinct_nbrs_def by simp_all
  then show "distinct (map fst (nbrs (AList.update k (AList.delete m (nbrs G k)) G) v))"
    by (simp add: nbrs_update distinct_delete)
qed

lemma distinct_nbrs_remove_edge:
  assumes "distinct_nbrs G" "remove_edge G u v = Inr G'"
  shows "distinct_nbrs G'"
proof -
  let ?G1 = "AList.update u (AList.delete v (nbrs G u)) G"
  have g1: "distinct_nbrs ?G1" using assms(1) by (rule distinct_nbrs_update_delete)
  from assms(2) have "G' = ?G1 \<or> G' = AList.update v (AList.delete u (nbrs ?G1 v)) ?G1"
    by (auto simp: remove_edge_def Let_def split: if_splits)
  then show ?thesis
  proof
    assume "G' = ?G1" with g1 show ?thesis by simp
  next
    assume "G' = AList.update v (AList.delete u (nbrs ?G1 v)) ?G1"
    then show ?thesis using distinct_nbrs_update_delete[OF g1, of v u] by simp
  qed
qed

lemma shortest_distance_self:
  assumes "nonneg_weights G"
  shows "shortest_distance G a a 0"
  unfolding shortest_distance_def
proof (intro conjI allI impI)
  have "last (a # []) = a \<and> walk_weight G a [] = Some 0" by simp
  then show "\<exists>p. last (a # p) = a \<and> walk_weight G a p = Some 0" by blast
next
  fix p x assume "last (a # p) = a \<and> walk_weight G a p = Some x"
  then show "0 \<le> x" using walk_weight_nonneg[OF assms, of a p x] by simp
qed

lemma shortest_path_length_shortest:
  assumes dn: "distinct_nbrs G" and nn: "nonneg_weights G"
    and l: "shortest_path_length G a b = Inr x"
  shows "shortest_distance G a b x"
proof (cases "a = b")
  case True
  with l have "x = 0" by (simp add: shortest_path_length_def split: if_splits)
  with True shortest_distance_self[OF nn, of a] show ?thesis by simp
next
  case False
  from l have hn: "has_node G a" by (simp add: shortest_path_length_def split: if_splits)
  from dijkstra_ok[OF nn, of a "Some b"] obtain sp where sp: "dijkstra G a (Some b) = Inr sp" by blast
  from l hn False sp have "map_of sp b = Some x"
    by (simp add: shortest_path_length_def split: option.splits)
  then have "(b, x) \<in> set sp" by (rule map_of_SomeD)
  from dijkstra_shortest[OF dn nn sp this] show ?thesis .
qed

lemma shortest_distance_nonneg:
  assumes "nonneg_weights G" "shortest_distance G a b x"
  shows "0 \<le> x"
proof -
  from shortest_distanceD(1)[OF assms(2)] obtain p where "walk_weight G a p = Some x" by blast
  from walk_weight_nonneg[OF assms(1) this] show ?thesis .
qed

lemma efold_Inr_mem:
  assumes "efold f xs s = Inr s'" "x \<in> set xs"
  shows "\<exists>s1 s2. f x s1 = Inr s2"
  using assms
proof (induction xs arbitrary: s)
  case Nil
  then show ?case by simp
next
  case (Cons y ys)
  from Cons.prems(1) obtain s1 where s1: "f y s = Inr s1" and r: "efold f ys s1 = Inr s'"
    by (cases "f y s") simp_all
  show ?case
  proof (cases "x = y")
    case True
    with s1 show ?thesis by blast
  next
    case False
    with Cons.prems(2) have "x \<in> set ys" by simp
    from Cons.IH[OF r this] show ?thesis .
  qed
qed

lemma comparar_par_nonzero:
  assumes "comparar_par G Gm (a, b) acc = Inr acc'" and "a < b"
    and "shortest_path_length G a b = Inr x" and "shortest_path_length Gm a b = Inr y" and "x < y"
  shows "x \<noteq> 0"
proof
  assume "x = 0"
  with assms have "comparar_par G Gm (a, b) acc = Inl ZeroDivisionError"
    by (cases acc) (simp add: comparar_par_def fdiv_def ebind_def)
  with assms(1) show False by simp
qed

lemma aumento_par_reportado:
  assumes nn: "nonneg_weights G" and nm: "nonneg_weights Gm"
    and dn: "distinct_nbrs G" and dm: "distinct_nbrs Gm"
    and nodes: "graph_nodes Gm = graph_nodes G" and p: "(a, b) \<in> set (pares_amostra G)"
    and im: "impacto_distancias G Gm = Inr r"
  shows "aumento_reportado G Gm a b (aumento_par G Gm (a, b))"
proof -
  note m = pares_amostra_mem[OF p]
  have ne: "a \<noteq> b" using m(1) by simp
  have hG: "has_node G a" using m(2) by (simp add: has_node_iff)
  have hM: "has_node Gm a" using m(2) nodes by (simp add: has_node_iff)
  note rG = shortest_path_length_reach[OF nn hG ne] and rM = shortest_path_length_reach[OF nm hM ne]
  have pm: "(a, b) \<in> set (List.product (nos_amostra G) (nos_amostra G))"
    using p by (simp add: pares_amostra_def)
  from efold_Inr_mem[OF im[unfolded impacto_distancias_def] pm]
  obtain acc acc' where cp: "comparar_par G Gm (a, b) acc = Inr acc'" by blast
  show ?thesis
  proof (cases "shortest_path_length G a b")
    case (Inl e)
    with rG have "b \<notin> reach G a" by auto
    moreover have "aumento_par G Gm (a, b) = None" using Inl by (simp add: aumento_par_def)
    ultimately show ?thesis by (simp add: aumento_reportado_def)
  next
    case x: (Inr x)
    note sx = shortest_path_length_shortest[OF dn nn x]
    show ?thesis
    proof (cases "shortest_path_length Gm a b")
      case (Inl e)
      with rM have "b \<notin> reach Gm a" by auto
      moreover have "aumento_par G Gm (a, b) = None" using Inl x by (simp add: aumento_par_def)
      ultimately show ?thesis by (simp add: aumento_reportado_def)
    next
      case y: (Inr y)
      note sy = shortest_path_length_shortest[OF dm nm y]
      show ?thesis
      proof (cases "x < y")
        case True
        have "x \<noteq> 0" by (rule comparar_par_nonzero[OF cp m(1) x y True])
        with shortest_distance_nonneg[OF nn sx] have x0: "0 < x" by simp
        have "aumento_par G Gm (a, b) = Some ((y - x) / x * 100)"
          using x y True by (simp add: aumento_par_def)
        then show ?thesis unfolding aumento_reportado_def using sx sy x0 True by auto
      next
        case False
        then have "aumento_par G Gm (a, b) = None" using x y by (simp add: aumento_par_def)
        moreover have "y \<le> x" using False by simp
        ultimately show ?thesis unfolding aumento_reportado_def using sx sy by auto
      qed
    qed
  qed
qed

lemma simular_aresta_resultado:
  assumes r: "r < length h" and s: "simular_aresta h r ds ebc a = (Inr res, h')"
  shows "aresta res = a \<and> (\<exists>Gm. resultado_de (h ! r) res Gm) \<and> (\<exists>x. h' = h @ [x])"
proof -
  obtain u v where a: "a = (u, v)" by (cases a)
  let ?c = "copy (h ! r)"
  have n1: "(h @ [x]) ! length h = x" for x by simp
  have n2: "(h @ [x]) ! r = h ! r" for x using r by (simp add: nth_append)
  show ?thesis
  proof (cases "remove_edge ?c u v")
    case (Inl e)
    then have "fst (simular_aresta h r ds ebc (u, v)) = Inl e"
      by (simp add: simular_aresta_def store_copy_def store_remove_edge_def Let_def n1)
    with s a show ?thesis by simp
  next
    case (Inr Gm)
    have sr: "store_remove_edge (h @ [?c]) (length h) u v = (None, h @ [Gm])"
      by (simp add: store_remove_edge_def Let_def n1 Inr)
    obtain ca where ca: "is_connected (h ! r) = Inr ca"
      using s sr unfolding a by (cases "is_connected (h ! r)")
        (simp_all add: simular_aresta_def store_copy_def Let_def n1 n2 ebind_def)
    obtain cd where cd: "is_connected Gm = Inr cd"
      using s sr ca unfolding a by (cases "is_connected Gm")
        (simp_all add: simular_aresta_def store_copy_def Let_def n1 n2 ebind_def)
    obtain au sc where im: "impacto_distancias (h ! r) Gm = Inr (au, sc)"
      using s sr ca cd unfolding a by (cases "impacto_distancias (h ! r) Gm")
        (auto simp: simular_aresta_def store_copy_def Let_def n1 n2 ebind_def)
    have "h' = h @ [Gm]" and "aresta res = (u, v)"
      and "aumentos_distancia res = au" and "pares_desconectados res = sc"
      and "componentes_antes res = number_connected_components (h ! r)"
      and "componentes_depois res = number_connected_components Gm"
      using s sr ca cd im unfolding a
      by (auto simp: simular_aresta_def store_copy_def Let_def n1 n2 ebind_def)
    with Inr im a show ?thesis unfolding resultado_de_def by auto
  qed
qed

lemma simular_arestas_resultados:
  assumes "r < length h" and "h ! r = G"
    and "simular_arestas h r ds ebc as rs0 = (Inr rs, h')"
  shows "\<exists>rs1. rs = rs0 @ rs1 \<and> map aresta rs1 = as \<and> (\<forall>res \<in> set rs1. \<exists>Gm. resultado_de G res Gm)"
  using assms
proof (induction as arbitrary: h rs0)
  case Nil
  then show ?case by simp
next
  case (Cons a as)
  obtain r1 h1 where s1: "simular_aresta h r ds ebc a = (r1, h1)"
    by (cases "simular_aresta h r ds ebc a")
  show ?case
  proof (cases r1)
    case (Inl e)
    with Cons.prems(3) s1 show ?thesis by simp
  next
    case (Inr res)
    from simular_aresta_resultado[OF Cons.prems(1) s1[unfolded Inr]] Cons.prems(2)
    obtain Gm x where ar: "aresta res = a" and rd: "resultado_de G res Gm" and h1: "h1 = h @ [x]"
      by blast
    have l1: "r < length h1" using Cons.prems(1) h1 by simp
    have g1: "h1 ! r = G" using Cons.prems(1,2) h1 by (simp add: nth_append)
    have "simular_arestas h1 r ds ebc as (rs0 @ [res]) = (Inr rs, h')"
      using Cons.prems(3) s1 Inr by simp
    from Cons.IH[OF l1 g1 this] obtain rs1 where rs1: "rs = (rs0 @ [res]) @ rs1" "map aresta rs1 = as"
      "\<forall>res \<in> set rs1. \<exists>Gm. resultado_de G res Gm" by blast
    show ?thesis
    proof (intro exI[of _ "res # rs1"] conjI)
      show "rs = rs0 @ res # rs1" using rs1(1) by simp
      show "map aresta (res # rs1) = a # as" using ar rs1(2) by simp
      show "\<forall>res \<in> set (res # rs1). \<exists>Gm. resultado_de G res Gm" using rd rs1(3) by auto
    qed
  qed
qed

lemma simular_remocao_ponte_resultados:
  assumes r: "r < length h"
    and s: "simular_remocao_ponte h r ds aresta_opt top_n = (Inr rs, h')"
  shows "(bridges (h ! r) = [] \<and> rs = []) \<or>
         (bridges (h ! r) \<noteq> [] \<and>
          escolher_arestas (h ! r) (bridges (h ! r)) aresta_opt top_n = Inr (map aresta rs) \<and>
          (\<forall>res \<in> set rs. \<exists>Gm. resultado_de (h ! r) res Gm))"
proof (cases "bridges (h ! r) = []")
  case True
  with s show ?thesis by (simp add: simular_remocao_ponte_def)
next
  case False
  from s False obtain arestas where as: "escolher_arestas (h ! r) (bridges (h ! r)) aresta_opt top_n = Inr arestas"
    by (cases "escolher_arestas (h ! r) (bridges (h ! r)) aresta_opt top_n")
       (simp_all add: simular_remocao_ponte_def)
  from s False as obtain ebc where ebc: "edge_betweenness_centrality (h ! r) = Inr ebc"
    by (cases "edge_betweenness_centrality (h ! r)") (simp_all add: simular_remocao_ponte_def)
  from s False as ebc have "simular_arestas h r ds ebc arestas [] = (Inr rs, h')"
    by (simp add: simular_remocao_ponte_def)
  from simular_arestas_resultados[OF r refl this]
  have "map aresta rs = arestas" "\<forall>res \<in> set rs. \<exists>Gm. resultado_de (h ! r) res Gm" by auto
  with False as show ?thesis by simp
qed

lemma closeness_centrality_value:
  assumes dn: "distinct_nbrs G" and nn: "nonneg_weights G" and n: "n \<in> set (graph_nodes G)"
  shows "\<exists>cc sp. closeness_centrality G = Inr cc \<and>
           fst ` set sp = reach G n \<and> distinct (map fst sp) \<and>
           (\<forall>(v, d) \<in> set sp. shortest_distance G n v d) \<and>
           map_of cc n = Some (closeness_formula G n (sum_list (map snd sp)))"
proof -
  define c where "c m = (SOME x. closeness_of G m = Inr x)" for m
  have cm: "closeness_of G m = Inr (c m)" for m
  proof -
    from closeness_of_value[OF nn, of m] have "\<exists>x. closeness_of G m = Inr x" by blast
    then show ?thesis unfolding c_def by (rule someI_ex)
  qed
  have "traverse (\<lambda>n. ebind (closeness_of G n) (\<lambda>c. Inr (n, c))) (graph_nodes G)
      = Inr (map (\<lambda>m. (m, c m)) (graph_nodes G))"
    by (rule traverse_all_ok) (simp add: cm ebind_def)
  then have cc: "closeness_centrality G = Inr (map (\<lambda>m. (m, c m)) (graph_nodes G))"
    by (simp add: closeness_centrality_def)
  have mo: "map_of (map (\<lambda>m. (m, c m)) (graph_nodes G)) n = Some (c n)"
    by (rule map_of_map_key[OF n])
  from closeness_of_value[OF nn, of n] obtain sp where sp: "dijkstra G n None = Inr sp"
    and k: "fst ` set sp = reach G n" and d: "distinct (map fst sp)"
    and v: "closeness_of G n = Inr (closeness_formula G n (sum_list (map snd sp)))"
    by (elim exE conjE) blast
  have cn: "c n = closeness_formula G n (sum_list (map snd sp))" using v cm[of n] by simp
  have mo': "map_of (map (\<lambda>m. (m, c m)) (graph_nodes G)) n
      = Some (closeness_formula G n (sum_list (map snd sp)))" using mo unfolding cn .
  have sh: "\<forall>(v, d) \<in> set sp. shortest_distance G n v d"
  proof (rule ballI)
    fix p assume p: "p \<in> set sp"
    obtain v d where vd: "p = (v, d)" by (cases p)
    from dijkstra_shortest[OF dn nn sp p[unfolded vd]]
    show "case p of (v, d) \<Rightarrow> shortest_distance G n v d" unfolding vd by simp
  qed
  show ?thesis
    by (intro exI[of _ "map (\<lambda>m. (m, c m)) (graph_nodes G)"] exI[of _ sp] conjI)
       (rule cc, rule k, rule d, rule sh, rule mo')
qed

section \<open>Facts about the simulation and the centralities\<close>

lemma store_remove_edge_last:
  assumes "store_remove_edge (h @ [c]) (length h) u v = (e, h2)"
  shows "\<exists>x. h2 = h @ [x]"
proof -
  have upd: "(h @ [c])[length h := x] = h @ [x]" for x by simp
  show ?thesis
  proof (cases "remove_edge ((h @ [c]) ! length h) u v")
    case (Inl err)
    then have "h2 = (if has_edge c u v then (h @ [c])[length h := AList.update u (AList.delete v (nbrs c u)) c] else h @ [c])"
      using assms by (simp add: store_remove_edge_def Let_def)
    then show ?thesis unfolding upd by (cases "has_edge c u v") simp_all
  next
    case (Inr G')
    then have "h2 = (h @ [c])[length h := G']" using assms by (simp add: store_remove_edge_def Let_def)
    then show ?thesis unfolding upd by blast
  qed
qed

lemma simular_aresta_store:
  assumes "simular_aresta h r ds ebc a = (res, h')"
  shows "\<exists>x. h' = h @ [x]"
proof -
  obtain u v where a: "a = (u, v)" by (cases a)
  obtain e h2 where rm: "store_remove_edge (h @ [copy (h ! r)]) (length h) u v = (e, h2)"
    by (cases "store_remove_edge (h @ [copy (h ! r)]) (length h) u v")
  from store_remove_edge_last[OF rm] obtain x where x: "h2 = h @ [x]" by blast
  have "h' = h2"
    using assms rm unfolding a simular_aresta_def store_copy_def Let_def
    by (cases e) (simp_all add: case_prod_beta)
  with x show ?thesis by blast
qed

lemma simular_arestas_store:
  assumes "simular_arestas h r ds ebc as rs = (res, h')"
  shows "\<exists>ext. h' = h @ ext"
  using assms
proof (induction as arbitrary: h rs)
  case Nil
  then show ?case by simp
next
  case (Cons a as)
  obtain r1 h1 where s1: "simular_aresta h r ds ebc a = (r1, h1)"
    by (cases "simular_aresta h r ds ebc a")
  from simular_aresta_store[OF s1] obtain x where h1: "h1 = h @ [x]" by blast
  show ?case
  proof (cases r1)
    case (Inl e)
    then have "h' = h1" using Cons.prems s1 by simp
    with h1 show ?thesis by blast
  next
    case (Inr r')
    then have "simular_arestas h1 r ds ebc as (rs @ [r']) = (res, h')" using Cons.prems s1 by simp
    from Cons.IH[OF this] obtain ext where "h' = h1 @ ext" by blast
    with h1 show ?thesis by simp
  qed
qed

lemma simular_remocao_ponte_store:
  "\<exists>ext. snd (simular_remocao_ponte h r ds aresta_opt top_n) = h @ ext"
proof -
  let ?G = "h ! r"
  show ?thesis
  proof (cases "bridges ?G = []")
    case True
    then show ?thesis by (simp add: simular_remocao_ponte_def)
  next
    case False
    show ?thesis
    proof (cases "escolher_arestas ?G (bridges ?G) aresta_opt top_n")
      case (Inl e)
      with False show ?thesis by (simp add: simular_remocao_ponte_def)
    next
      case as: (Inr arestas)
      show ?thesis
      proof (cases "edge_betweenness_centrality ?G")
        case (Inl e)
        with False as show ?thesis by (simp add: simular_remocao_ponte_def)
      next
        case (Inr ebc)
        obtain res h' where s: "simular_arestas h r ds ebc arestas [] = (res, h')"
          by (cases "simular_arestas h r ds ebc arestas []")
        from simular_arestas_store[OF s] obtain ext where "h' = h @ ext" by blast
        with False as Inr s show ?thesis by (simp add: simular_remocao_ponte_def)
      qed
    qed
  qed
qed

lemma calcular_centralidades_one_node:
  assumes "number_of_nodes (grafo s) = 1"
  shows "calcular_centralidades s = Inl ZeroDivisionError"
proof -
  have "graph_nodes (grafo s) \<noteq> []" using assms by (auto simp: number_of_nodes_def graph_nodes_def)
  then have "calcular_degree_centrality (grafo s) = Inl ZeroDivisionError"
    using assms traverse_truediv_zero[of "degree_view (grafo s)"]
    by (simp add: calcular_degree_centrality_def degree_view_def)
  then show ?thesis by (simp add: calcular_centralidades_def ebind_def)
qed

lemma calcular_centralidades_Inr:
  assumes "calcular_centralidades s = Inr s'"
  shows "\<exists>dc bc cc ebc.
           calcular_degree_centrality (grafo s) = Inr dc \<and>
           betweenness_centrality (grafo s) = Inr bc \<and>
           closeness_centrality (grafo s) = Inr cc \<and>
           edge_betweenness_centrality (grafo s) = Inr ebc \<and>
           s' = s\<lparr>degree_centrality := dc, betweenness_centrality_r := bc,
                   closeness_centrality_r := cc, edge_betweenness_centrality_r := ebc\<rparr>"
proof -
  from assms obtain dc where dc: "calcular_degree_centrality (grafo s) = Inr dc"
    by (cases "calcular_degree_centrality (grafo s)") (simp_all add: calcular_centralidades_def ebind_def)
  from assms dc obtain bc where bc: "betweenness_centrality (grafo s) = Inr bc"
    by (cases "betweenness_centrality (grafo s)") (simp_all add: calcular_centralidades_def ebind_def)
  from assms dc bc obtain cc where cc: "closeness_centrality (grafo s) = Inr cc"
    by (cases "closeness_centrality (grafo s)") (simp_all add: calcular_centralidades_def ebind_def)
  from assms dc bc cc obtain ebc where ebc: "edge_betweenness_centrality (grafo s) = Inr ebc"
    by (cases "edge_betweenness_centrality (grafo s)") (simp_all add: calcular_centralidades_def ebind_def)
  have "s' = s\<lparr>degree_centrality := dc, betweenness_centrality_r := bc,
               closeness_centrality_r := cc, edge_betweenness_centrality_r := ebc\<rparr>"
    using assms dc bc cc ebc by (simp add: calcular_centralidades_def ebind_def)
  with dc bc cc ebc show ?thesis by blast
qed

section \<open>Claims\<close>

text \<open>
  C2. For a well-formed graph with more than one node and any node n of it, the degree
  step of \<^verbatim>\<open>calcular_centralidades\<close> succeeds and stores for n the value
  degree(n) / (nodeCount - 1). The value is never negative, and it is at most 1 on a graph
  without self-loops, which is what the networks of the road data are (an edge joins two
  different nodes). Every loaded graph is well-formed (\<open>wf_graph_carregar_dados\<close>).
\<close>

theorem degree_centrality_value:
  assumes "wf_graph G" and "1 < number_of_nodes G" and "n \<in> set (graph_nodes G)"
  shows "\<exists>dc c. calcular_degree_centrality G = Inr dc \<and> map_of dc n = Some c \<and>
           c = of_int (degree G n) / of_int (int (number_of_nodes G) - 1) \<and> 0 \<le> c \<and>
           (no_self_loops G \<longrightarrow> c \<le> 1)"
proof -
  let ?c = "(of_int (degree G n) / of_int (int (number_of_nodes G) - 1)) :: rat"
  have pos: "0 < int (number_of_nodes G) - 1" using assms(2) by simp
  have "calcular_degree_centrality G =
     Inr (map (\<lambda>n. (n, of_int (degree G n) / of_int (int (number_of_nodes G) - 1))) (graph_nodes G))"
    using assms(2) by (intro calcular_degree_centrality_ok) simp
  moreover have "map_of (map (\<lambda>n. (n, (of_int (degree G n) / of_int (int (number_of_nodes G) - 1)) :: rat)) (graph_nodes G)) n = Some ?c"
    by (rule map_of_map_key[OF assms(3)])
  moreover have "0 \<le> ?c" using pos degree_nonneg[of G n] by simp
  moreover have "?c \<le> 1" if "no_self_loops G"
  proof -
    have "\<not> has_edge G n n" using that assms(3) by (simp add: no_self_loops_def)
    from degree_le[OF assms(1,3) this] pos show ?thesis by simp
  qed
  ultimately show ?thesis by blast
qed


theorem degree_centrality_value_witness:
  "wf_graph [(1, [(2, 5)]), (2, [(1, 5)])] \<and>
   1 < number_of_nodes [(1, [(2, 5)]), (2, [(1, 5)])] \<and>
   1 \<in> set (graph_nodes [(1, [(2, 5)]), (2, [(1, 5)])]) \<and>
   (\<exists>dc c. calcular_degree_centrality [(1, [(2, 5)]), (2, [(1, 5)])] = Inr dc \<and>
      map_of dc 1 = Some c \<and> 0 \<le> c \<and> c \<le> 1)"
proof -
  let ?G = "[(1, [(2, 5)]), (2, [(1, 5)])] :: graph"
  have w: "wf_graph ?G" by (simp add: wf_graph_def nbrs_def)
  have n: "1 < number_of_nodes ?G" by (simp add: number_of_nodes_def)
  have m: "1 \<in> set (graph_nodes ?G)" by (simp add: graph_nodes_def)
  have l: "no_self_loops ?G" by (simp add: no_self_loops_def graph_nodes_def has_edge_def nbrs_def)
  from degree_centrality_value[OF w n m] l w n m show ?thesis by blast
qed

text \<open>
  C5. On a graph with exactly one node the degree step divides by
  \<^verbatim>\<open>number_of_nodes() - 1 = 0\<close>: \<^verbatim>\<open>calcular_centralidades\<close> raises \<^verbatim>\<open>ZeroDivisionError\<close>
  instead of reporting centrality 0. Shown at the single node without edges and at the
  graph loaded from the one net line \<^verbatim>\<open>7 7\<close>.
\<close>

theorem calcular_centralidades_single_node_raises:
  "calcular_centralidades
     \<lparr>grafo = [(1, [])], coordenadas = [], distancias = [], degree_centrality = [],
      betweenness_centrality_r = [], closeness_centrality_r = [],
      edge_betweenness_centrality_r = []\<rparr> = Inl ZeroDivisionError \<and>
   calcular_centralidades
     \<lparr>grafo = grafo (carregar_dados [] [(7, 7)]), coordenadas = [], distancias = [],
      degree_centrality = [], betweenness_centrality_r = [], closeness_centrality_r = [],
      edge_betweenness_centrality_r = []\<rparr> = Inl ZeroDivisionError"
proof -
  have "number_of_nodes (grafo (carregar_dados [] [(7, 7)])) = 1" by code_simp
  then show ?thesis
    by (simp add: calcular_centralidades_one_node number_of_nodes_def)
qed

text \<open>
  C6, as amended. Inserting an edge never fails, whatever the sign of the weight: after
  \<^verbatim>\<open>add_edge(u, v, weight=w)\<close> the graph holds the edge in both directions with weight w
  (the last write wins).
\<close>

theorem add_edge_stores_any_weight:
  "edge_weight (add_edge G u v w) u v = Some w \<and> edge_weight (add_edge G u v w) v u = Some w"
  by (simp add: edge_weight_add_edge)

text \<open>
  C6, the claim as stated fails: an edge-info line with distance -5 for the pair (1, 2)
  and the net line \<^verbatim>\<open>1 2\<close> load a graph that contains the edge with weight -5.
\<close>

theorem negative_weight_accepted_counterexample:
  "grafo (carregar_dados
      [\<lparr>ei_no1 = 1, ei_x1 = 0, ei_y1 = 0, ei_no2 = 2, ei_x2 = 1, ei_y2 = 0, ei_distancia = - 5\<rparr>]
      [(1, 2)]) = [(1, [(2, - 5)]), (2, [(1, - 5)])] \<and>
   edge_weight (add_edge [] 1 2 (- 5)) 1 2 = Some (- 5)"
  by code_simp

text \<open>
  C10. Loading has no failing branch (\<^const>\<open>carregar_dados\<close> is a total function of the
  parsed lines). For every line (no1, no2) of the edge list whose sorted pair is not a key
  of the distance table built from the edge-info lines, the loaded graph holds the edge
  no1 - no2, in both directions, with weight 0.
\<close>

theorem carregar_dados_missing_distance:
  assumes "(no1, no2) \<in> set net"
    and "chave no1 no2 \<notin> (\<lambda>l. chave (ei_no1 l) (ei_no2 l)) ` set edge_info"
  shows "edge_weight (grafo (carregar_dados edge_info net)) no1 no2 = Some 0 \<and>
         edge_weight (grafo (carregar_dados edge_info net)) no2 no1 = Some 0"
proof -
  let ?s = "fold (\<lambda>l s. ler_edge_info s l) edge_info analisador_novo"
  have "chave no1 no2 \<notin> fst ` set (distancias ?s)"
    using assms(2) by (simp add: distancias_keys_ler_edge_info analisador_novo_def)
  then have "map_of (distancias ?s) (chave no1 no2) = None"
    by (simp add: map_of_eq_None_iff)
  from fold_ler_net_zero[OF this assms(1)] show ?thesis
    by (simp add: carregar_dados_def zero_edge_def)
qed

theorem carregar_dados_missing_distance_witness:
  "(3, 2) \<in> set [(1, 2), (3 :: node, 2 :: node)] \<and>
   edge_weight (grafo (carregar_dados
      [\<lparr>ei_no1 = 1, ei_x1 = 0, ei_y1 = 0, ei_no2 = 2, ei_x2 = 1, ei_y2 = 0, ei_distancia = 4\<rparr>]
      [(1, 2), (3, 2)])) 3 2 = Some 0"
proof -
  let ?ei = "[\<lparr>ei_no1 = 1, ei_x1 = 0, ei_y1 = 0, ei_no2 = 2, ei_x2 = 1, ei_y2 = 0, ei_distancia = 4\<rparr>]"
  have a: "(3, 2) \<in> set [(1, 2), (3 :: node, 2 :: node)]" by simp
  have b: "chave 3 2 \<notin> (\<lambda>l. chave (ei_no1 l) (ei_no2 l)) ` set ?ei"
    by (simp add: chave_def)
  from carregar_dados_missing_distance[OF a b] a show ?thesis by blast
qed

text \<open>
  C3, as amended. For a well-formed graph without negative weights and any node n of it,
  \<^verbatim>\<open>nx.closeness_centrality(G, distance='weight')\<close> returns, and what
  \<^verbatim>\<open>calcular_centralidades\<close> stores for n is the value of \<^const>\<open>closeness_formula\<close>:
  with sp the list of the nodes reachable from n, each once with its shortest distance
  from n, r its length and totsp the sum of its distances, the value is
  ((r - 1) / totsp) * ((r - 1) / (nodeCount - 1)) when totsp is positive, and 0 otherwise,
  in particular when n reaches no other node. The second factor is the library's default
  scaling \<^verbatim>\<open>wf_improved=True\<close>; it is 1 exactly when n reaches every node. Values are
  exact rationals here; floating-point rounding is not represented.
\<close>

theorem closeness_value:
  assumes "wf_graph (grafo s)" and "nonneg_weights (grafo s)" and "n \<in> set (graph_nodes (grafo s))"
  shows "\<exists>cc sp. closeness_centrality (grafo s) = Inr cc \<and>
           (\<forall>s'. calcular_centralidades s = Inr s' \<longrightarrow> closeness_centrality_r s' = cc) \<and>
           fst ` set sp = reach (grafo s) n \<and> distinct (map fst sp) \<and>
           (\<forall>(v, d) \<in> set sp. shortest_distance (grafo s) n v d) \<and>
           map_of cc n = Some (closeness_formula (grafo s) n (sum_list (map snd sp))) \<and>
           (reach (grafo s) n = {n} \<longrightarrow> map_of cc n = Some 0)"
proof -
  from closeness_centrality_value[OF wf_graph_distinct_nbrs[OF assms(1)] assms(2) assms(3)]
  obtain cc sp where
    x: "closeness_centrality (grafo s) = Inr cc \<and>
        fst ` set sp = reach (grafo s) n \<and> distinct (map fst sp) \<and>
        (\<forall>(v, d) \<in> set sp. shortest_distance (grafo s) n v d) \<and>
        map_of cc n = Some (closeness_formula (grafo s) n (sum_list (map snd sp)))"
    by (elim exE)
  note cc = x[THEN conjunct1]
  note k = x[THEN conjunct2, THEN conjunct1]
  note d = x[THEN conjunct2, THEN conjunct2, THEN conjunct1]
  note sh = x[THEN conjunct2, THEN conjunct2, THEN conjunct2, THEN conjunct1]
  note v = x[THEN conjunct2, THEN conjunct2, THEN conjunct2, THEN conjunct2]
  have st: "closeness_centrality_r s' = cc" if "calcular_centralidades s = Inr s'" for s'
  proof -
    from calcular_centralidades_Inr[OF that] obtain dc bc cc' ebc where
      y: "calcular_degree_centrality (grafo s) = Inr dc \<and>
          betweenness_centrality (grafo s) = Inr bc \<and>
          closeness_centrality (grafo s) = Inr cc' \<and>
          edge_betweenness_centrality (grafo s) = Inr ebc \<and>
          s' = s\<lparr>degree_centrality := dc, betweenness_centrality_r := bc,
                  closeness_centrality_r := cc', edge_betweenness_centrality_r := ebc\<rparr>"
      by (elim exE)
    note c' = y[THEN conjunct2, THEN conjunct2, THEN conjunct1]
    note s' = y[THEN conjunct2, THEN conjunct2, THEN conjunct2, THEN conjunct2]
    from c' cc have "cc' = cc" by simp
    then show ?thesis unfolding s' by simp
  qed
  have st': "\<forall>s'. calcular_centralidades s = Inr s' \<longrightarrow> closeness_centrality_r s' = cc"
    by (intro allI impI) (rule st)
  have iso: "reach (grafo s) n = {n} \<longrightarrow> map_of cc n = Some 0"
  proof
    assume r: "reach (grafo s) n = {n}"
    show "map_of cc n = Some 0" using v unfolding closeness_formula_def r by simp
  qed
  show ?thesis
    by (intro exI[of _ cc] exI[of _ sp] conjI) (rule cc, rule st', rule k, rule d, rule sh, rule v, rule iso)
qed

theorem closeness_value_witness:
  "wf_graph [(1, [(2, 1)]), (2, [(1, 1)]), (3, [(4, 1)]), (4, [(3, 1)])] \<and>
   nonneg_weights [(1, [(2, 1)]), (2, [(1, 1)]), (3, [(4, 1)]), (4, [(3, 1)])] \<and>
   1 \<in> set (graph_nodes [(1, [(2, 1)]), (2, [(1, 1)]), (3, [(4, 1)]), (4, [(3, 1)])]) \<and>
   calcular_centralidades
     \<lparr>grafo = [(1, [(2, 1)]), (2, [(1, 1)]), (3, [(4, 1)]), (4, [(3, 1)])], coordenadas = [],
      distancias = [], degree_centrality = [], betweenness_centrality_r = [],
      closeness_centrality_r = [], edge_betweenness_centrality_r = []\<rparr>
     = Inr \<lparr>grafo = [(1, [(2, 1)]), (2, [(1, 1)]), (3, [(4, 1)]), (4, [(3, 1)])],
            coordenadas = [], distancias = [],
            degree_centrality = [(1, 1 / 3), (2, 1 / 3), (3, 1 / 3), (4, 1 / 3)],
            betweenness_centrality_r = [(1, 0), (2, 0), (3, 0), (4, 0)],
            closeness_centrality_r = [(1, 1 / 3), (2, 1 / 3), (3, 1 / 3), (4, 1 / 3)],
            edge_betweenness_centrality_r = [((1, 2), 1 / 6), ((3, 4), 1 / 6)]\<rparr> \<and>
   (\<exists>sp. fst ` set sp = reach [(1, [(2, 1)]), (2, [(1, 1)]), (3, [(4, 1)]), (4, [(3, 1)])] 1 \<and>
         (\<forall>(v, d) \<in> set sp. shortest_distance [(1, [(2, 1)]), (2, [(1, 1)]), (3, [(4, 1)]), (4, [(3, 1)])] 1 v d) \<and>
         closeness_formula [(1, [(2, 1)]), (2, [(1, 1)]), (3, [(4, 1)]), (4, [(3, 1)])] 1
           (sum_list (map snd sp)) = 1 / 3)"
proof -
  let ?G = "[(1, [(2, 1)]), (2, [(1, 1)]), (3, [(4, 1)]), (4, [(3, 1)])] :: graph"
  let ?s = "\<lparr>grafo = ?G, coordenadas = [], distancias = [], degree_centrality = [],
             betweenness_centrality_r = [], closeness_centrality_r = [],
             edge_betweenness_centrality_r = []\<rparr>"
  let ?s' = "\<lparr>grafo = ?G, coordenadas = [], distancias = [],
            degree_centrality = [(1, 1 / 3), (2, 1 / 3), (3, 1 / 3), (4, 1 / 3)],
            betweenness_centrality_r = [(1, 0), (2, 0), (3, 0), (4, 0)],
            closeness_centrality_r = [(1, 1 / 3), (2, 1 / 3), (3, 1 / 3), (4, 1 / 3)],
            edge_betweenness_centrality_r = [((1, 2), 1 / 6), ((3, 4), 1 / 6)]\<rparr>"
  have g: "grafo ?s = ?G" by simp
  have w: "wf_graph ?G" by (simp add: wf_graph_def nbrs_def)
  have n: "nonneg_weights ?G" by (simp add: nonneg_weights_def)
  have m: "1 \<in> set (graph_nodes ?G)" by (simp add: graph_nodes_def)
  have r: "calcular_centralidades ?s = Inr ?s'" by code_simp
  from closeness_value[of ?s 1, unfolded g, OF w n m] obtain cc sp where
    x: "closeness_centrality ?G = Inr cc \<and>
        (\<forall>s'. calcular_centralidades ?s = Inr s' \<longrightarrow> closeness_centrality_r s' = cc) \<and>
        fst ` set sp = reach ?G 1 \<and> distinct (map fst sp) \<and>
        (\<forall>(v, d) \<in> set sp. shortest_distance ?G 1 v d) \<and>
        map_of cc 1 = Some (closeness_formula ?G 1 (sum_list (map snd sp))) \<and>
        (reach ?G 1 = {1} \<longrightarrow> map_of cc 1 = Some 0)"
    by (elim exE)
  note a = x[THEN conjunct2, THEN conjunct1]
  note k = x[THEN conjunct2, THEN conjunct2, THEN conjunct1]
  note sh = x[THEN conjunct2, THEN conjunct2, THEN conjunct2, THEN conjunct2, THEN conjunct1]
  note v = x[THEN conjunct2, THEN conjunct2, THEN conjunct2, THEN conjunct2, THEN conjunct2, THEN conjunct1]
  from a[THEN spec, THEN mp, OF r] have c: "cc = [(1, 1 / 3), (2, 1 / 3), (3, 1 / 3), (4, 1 / 3)]" by simp
  have f: "closeness_formula ?G 1 (sum_list (map snd sp)) = 1 / 3" using v unfolding c by simp
  have e: "\<exists>sp. fst ` set sp = reach ?G 1 \<and> (\<forall>(v, d) \<in> set sp. shortest_distance ?G 1 v d) \<and>
              closeness_formula ?G 1 (sum_list (map snd sp)) = 1 / 3"
    by (intro exI[of _ sp] conjI) (rule k, rule sh, rule f)
  show ?thesis by (intro conjI) (rule w, rule n, rule m, rule r, rule e)
qed

text \<open>
  C3, the claim as stated fails: in the graph of the two separate edges 1 - 2 and 3 - 4
  with unit weights, node 1 reaches two nodes (itself and 2) at total distance 1, so the
  claimed value is (2 - 1) / 1 = 1, and \<^verbatim>\<open>calcular_centralidades\<close> stores 1/3.
\<close>

theorem closeness_disconnected_counterexample:
  "calcular_centralidades
     \<lparr>grafo = [(1, [(2, 1)]), (2, [(1, 1)]), (3, [(4, 1)]), (4, [(3, 1)])], coordenadas = [],
      distancias = [], degree_centrality = [], betweenness_centrality_r = [],
      closeness_centrality_r = [], edge_betweenness_centrality_r = []\<rparr>
     = Inr \<lparr>grafo = [(1, [(2, 1)]), (2, [(1, 1)]), (3, [(4, 1)]), (4, [(3, 1)])],
            coordenadas = [], distancias = [],
            degree_centrality = [(1, 1 / 3), (2, 1 / 3), (3, 1 / 3), (4, 1 / 3)],
            betweenness_centrality_r = [(1, 0), (2, 0), (3, 0), (4, 0)],
            closeness_centrality_r = [(1, 1 / 3), (2, 1 / 3), (3, 1 / 3), (4, 1 / 3)],
            edge_betweenness_centrality_r = [((1, 2), 1 / 6), ((3, 4), 1 / 6)]\<rparr> \<and>
   plain_bfs [(1, [(2, 1)]), (2, [(1, 1)]), (3, [(4, 1)]), (4, [(3, 1)])] 1 = [1, 2] \<and>
   dijkstra [(1, [(2, 1)]), (2, [(1, 1)]), (3, [(4, 1)]), (4, [(3, 1)])] 1 None = Inr [(1, 0), (2, 1)] \<and>
   (of_nat (length [1, 2 :: node]) - 1) / sum_list (map snd [(1 :: node, 0), (2, 1 :: rat)]) = (1 :: rat) \<and>
   (1 / 3 :: rat) \<noteq> 1"
  by code_simp




text \<open>
  C7. The simulation leaves every graph object that existed before it unchanged, in
  particular the analyser's own graph: whatever it returns or raises, the object at
  \<^verbatim>\<open>self.grafo\<close> is the same graph afterwards (so its nodes, edges and weights are the
  same), because the edge is removed from a newly allocated copy.
\<close>

theorem simular_preserves_original:
  assumes "self_grafo < length h"
  shows "snd (simular_remocao_ponte h self_grafo ds aresta_opt top_n) ! self_grafo = h ! self_grafo \<and>
         take (length h) (snd (simular_remocao_ponte h self_grafo ds aresta_opt top_n)) = h"
proof -
  from simular_remocao_ponte_store[of h self_grafo ds aresta_opt top_n]
  obtain ext where e: "snd (simular_remocao_ponte h self_grafo ds aresta_opt top_n) = h @ ext" by blast
  show ?thesis unfolding e using assms by (simp add: nth_append)
qed

theorem simular_preserves_original_witness:
  "(0 :: nat) < length [[(1, [(2, 1)]), (2, [(1, 1), (3, 1)]), (3, [(2, 1)])]] \<and>
   length (snd (simular_remocao_ponte [[(1, [(2, 1)]), (2, [(1, 1), (3, 1)]), (3, [(2, 1)])]] 0 [] None 1)) = 2 \<and>
   snd (simular_remocao_ponte [[(1, [(2, 1)]), (2, [(1, 1), (3, 1)]), (3, [(2, 1)])]] 0 [] None 1) ! 0
     = [(1, [(2, 1)]), (2, [(1, 1), (3, 1)]), (3, [(2, 1)])]"
proof -
  let ?h = "[[(1, [(2, 1)]), (2, [(1, 1), (3, 1)]), (3, [(2, 1)])]] :: store"
  have l: "(0 :: nat) < length ?h" by simp
  have "length (snd (simular_remocao_ponte ?h 0 [] None 1)) = 2" by code_simp
  with simular_preserves_original[OF l, of "[]" None 1] l show ?thesis by simp
qed

text \<open>
  C8, as amended. For a well-formed graph without negative weights, every result that
  \<^verbatim>\<open>simular_remocao_ponte\<close> returns belongs to an edge that was removed from a copy of
  the graph, giving Gm, and over the sampled pairs (a, b) with a before b among the first
  20 nodes, in order: \<^verbatim>\<open>aumentos_distancia\<close> holds one percentage for each pair whose
  length is returned in both graphs and is greater in Gm, and nothing for the other pairs.
  A reported percentage is (y - x) / x * 100 for the shortest distances x in the graph and
  y in Gm, with 0 < x < y; a pair without a percentage is unconnected in the graph or in
  Gm, or its shortest distance did not grow. \<^verbatim>\<open>pares_desconectados\<close> is the number of
  sampled pairs connected in the graph and not in Gm.
\<close>

theorem simular_remocao_ponte_distancias:
  assumes "r < length h" and "wf_graph (h ! r)" and "nonneg_weights (h ! r)"
    and "simular_remocao_ponte h r ds aresta_opt top_n = (Inr rs, h')" and "res \<in> set rs"
  shows "\<exists>Gm. remove_edge (copy (h ! r)) (fst (aresta res)) (snd (aresta res)) = Inr Gm \<and>
           aumentos_distancia res =
             List.map_filter (aumento_par (h ! r) Gm) (pares_amostra (h ! r)) \<and>
           (\<forall>(a, b) \<in> set (pares_amostra (h ! r)).
              aumento_reportado (h ! r) Gm a b (aumento_par (h ! r) Gm (a, b))) \<and>
           pares_desconectados res =
             length (filter (\<lambda>(a, b). b \<in> reach (h ! r) a \<and> b \<notin> reach Gm a) (pares_amostra (h ! r)))"
proof -
  let ?G = "h ! r"
  from simular_remocao_ponte_resultados[OF assms(1,4)] assms(5)
  obtain Gm where rd: "resultado_de ?G res Gm" by auto
  then have rm: "remove_edge (copy ?G) (fst (aresta res)) (snd (aresta res)) = Inr Gm"
    and im: "impacto_distancias ?G Gm = Inr (aumentos_distancia res, pares_desconectados res)"
    unfolding resultado_de_def by simp_all
  note iv = impacto_distancias_value[OF im]
  have nn: "nonneg_weights ?G" by (rule assms(3))
  have nm: "nonneg_weights Gm" by (rule nonneg_weights_removed_copy[OF nn rm])
  have dn: "distinct_nbrs ?G" by (rule wf_graph_distinct_nbrs[OF assms(2)])
  have dm: "distinct_nbrs Gm"
    by (rule distinct_nbrs_remove_edge[OF wf_graph_distinct_nbrs[OF wf_graph_copy[OF assms(2)]] rm])
  have nodes: "graph_nodes Gm = graph_nodes ?G"
    using remove_edge_Inr(2)[OF rm] copy_wf(2)[OF assms(2)] by simp
  have "filter (par_desconectado ?G Gm) (pares_amostra ?G)
      = filter (\<lambda>(a, b). b \<in> reach ?G a \<and> b \<notin> reach Gm a) (pares_amostra ?G)"
  proof (rule filter_cong[OF refl])
    fix p assume p: "p \<in> set (pares_amostra ?G)"
    obtain a b where ab: "p = (a, b)" by (cases p)
    from par_desconectado_reach[OF nn nm nodes p[unfolded ab]]
    show "par_desconectado ?G Gm p = (case p of (a, b) \<Rightarrow> b \<in> reach ?G a \<and> b \<notin> reach Gm a)"
      unfolding ab by simp
  qed
  then have sem: "pares_desconectados res =
      length (filter (\<lambda>(a, b). b \<in> reach ?G a \<and> b \<notin> reach Gm a) (pares_amostra ?G))"
    using iv(2) by simp
  have rep: "\<forall>(a, b) \<in> set (pares_amostra ?G). aumento_reportado ?G Gm a b (aumento_par ?G Gm (a, b))"
    using aumento_par_reportado[OF nn nm dn dm nodes _ im] by blast
  from rm iv(1) sem rep show ?thesis by blast
qed

theorem simular_remocao_ponte_distancias_witness:
  "(0 :: nat) < length ([[(1, [(2, 1), (3, 1)]), (2, [(1, 1), (3, 1)]), (3, [(2, 1), (1, 1), (4, 1)]), (4, [(3, 1)])]] :: store) \<and>
   wf_graph [(1, [(2, 1), (3, 1)]), (2, [(1, 1), (3, 1)]), (3, [(2, 1), (1, 1), (4, 1)]), (4, [(3, 1)])] \<and>
   nonneg_weights [(1, [(2, 1), (3, 1)]), (2, [(1, 1), (3, 1)]), (3, [(2, 1), (1, 1), (4, 1)]), (4, [(3, 1)])] \<and>
   simular_remocao_ponte
     [[(1, [(2, 1), (3, 1)]), (2, [(1, 1), (3, 1)]), (3, [(2, 1), (1, 1), (4, 1)]), (4, [(3, 1)])]]
     0 [] (Some (1, 2)) 1
   = (Inr [\<lparr>aresta = (1, 2), distancia = 0, edge_betweenness = 1 / 6,
            componentes_antes = 1, componentes_depois = 1,
            is_conexo_antes = True, is_conexo_depois = True,
            tamanhos_componentes = [], nos_isolados = [],
            aumentos_distancia = [100], pares_desconectados = 0\<rparr>],
      [[(1, [(2, 1), (3, 1)]), (2, [(1, 1), (3, 1)]), (3, [(2, 1), (1, 1), (4, 1)]), (4, [(3, 1)])],
       [(1, [(3, 1)]), (2, [(3, 1)]), (3, [(1, 1), (2, 1), (4, 1)]), (4, [(3, 1)])]]) \<and>
   (\<exists>Gm. remove_edge (copy [(1, [(2, 1), (3, 1)]), (2, [(1, 1), (3, 1)]), (3, [(2, 1), (1, 1), (4, 1)]), (4, [(3, 1)])]) 1 2 = Inr Gm \<and>
      List.map_filter (aumento_par [(1, [(2, 1), (3, 1)]), (2, [(1, 1), (3, 1)]), (3, [(2, 1), (1, 1), (4, 1)]), (4, [(3, 1)])] Gm)
        (pares_amostra [(1, [(2, 1), (3, 1)]), (2, [(1, 1), (3, 1)]), (3, [(2, 1), (1, 1), (4, 1)]), (4, [(3, 1)])]) = [100] \<and>
      length (filter (\<lambda>(a, b). b \<in> reach [(1, [(2, 1), (3, 1)]), (2, [(1, 1), (3, 1)]), (3, [(2, 1), (1, 1), (4, 1)]), (4, [(3, 1)])] a \<and> b \<notin> reach Gm a)
        (pares_amostra [(1, [(2, 1), (3, 1)]), (2, [(1, 1), (3, 1)]), (3, [(2, 1), (1, 1), (4, 1)]), (4, [(3, 1)])])) = 0)"
proof -
  let ?G = "[(1, [(2, 1), (3, 1)]), (2, [(1, 1), (3, 1)]), (3, [(2, 1), (1, 1), (4, 1)]), (4, [(3, 1)])] :: graph"
  let ?h = "[?G]"
  let ?res = "\<lparr>aresta = (1, 2), distancia = 0, edge_betweenness = 1 / 6,
            componentes_antes = 1, componentes_depois = 1,
            is_conexo_antes = True, is_conexo_depois = True,
            tamanhos_componentes = [], nos_isolados = [],
            aumentos_distancia = [100], pares_desconectados = 0\<rparr>"
  let ?h' = "[?G, [(1, [(3, 1)]), (2, [(3, 1)]), (3, [(1, 1), (2, 1), (4, 1)]), (4, [(3, 1)])]]"
  have l: "(0 :: nat) < length ?h" by simp
  have g: "?h ! 0 = ?G" by simp
  have w: "wf_graph ?G" by (simp add: wf_graph_def nbrs_def)
  have n: "nonneg_weights ?G" by (simp add: nonneg_weights_def)
  have s: "simular_remocao_ponte ?h 0 [] (Some (1, 2)) 1 = (Inr [?res], ?h')" by code_simp
  have m: "?res \<in> set [?res]" by simp
  have f: "fst (aresta ?res) = 1" "snd (aresta ?res) = 2" "aumentos_distancia ?res = [100]"
    "pares_desconectados ?res = 0" by simp_all
  from simular_remocao_ponte_distancias[of 0 ?h "[]" "Some (1, 2)" 1 "[?res]" ?h' ?res, unfolded g f, OF l w n s m]
  obtain Gm where
    x: "remove_edge (copy ?G) 1 2 = Inr Gm \<and>
        [100] = List.map_filter (aumento_par ?G Gm) (pares_amostra ?G) \<and>
        (\<forall>(a, b) \<in> set (pares_amostra ?G). aumento_reportado ?G Gm a b (aumento_par ?G Gm (a, b))) \<and>
        0 = length (filter (\<lambda>(a, b). b \<in> reach ?G a \<and> b \<notin> reach Gm a) (pares_amostra ?G))"
    by (elim exE)
  note x1 = x[THEN conjunct1]
  note x2 = x[THEN conjunct2, THEN conjunct1, symmetric]
  note x4 = x[THEN conjunct2, THEN conjunct2, THEN conjunct2, symmetric]
  have e: "\<exists>Gm. remove_edge (copy ?G) 1 2 = Inr Gm \<and>
      List.map_filter (aumento_par ?G Gm) (pares_amostra ?G) = [100] \<and>
      length (filter (\<lambda>(a, b). b \<in> reach ?G a \<and> b \<notin> reach Gm a) (pares_amostra ?G)) = 0"
    by (intro exI[of _ Gm] conjI) (rule x1, rule x2, rule x4)
  show ?thesis by (intro conjI) (rule l, rule w, rule n, rule s, rule e)
qed

text \<open>
  C8, the claim as stated fails: on the path 1 - 2 - 3 with unit weights and the edge 2 - 3
  removed, the sampled pair (1, 2) has a path of length 1 in both graphs, and no percentage
  is reported for it (\<^verbatim>\<open>aumentos_distancia\<close> is empty); the two pairs with node 3 are
  counted as disconnected.
\<close>

theorem unchanged_pair_not_reported_counterexample:
  "simular_remocao_ponte [[(1, [(2, 1)]), (2, [(1, 1), (3, 1)]), (3, [(2, 1)])]] 0 [] (Some (2, 3)) 1
   = (Inr [\<lparr>aresta = (2, 3), distancia = 0, edge_betweenness = 2 / 3,
            componentes_antes = 1, componentes_depois = 2,
            is_conexo_antes = True, is_conexo_depois = False,
            tamanhos_componentes = [2, 1], nos_isolados = [3],
            aumentos_distancia = [], pares_desconectados = 2\<rparr>],
      [[(1, [(2, 1)]), (2, [(1, 1), (3, 1)]), (3, [(2, 1)])],
       [(1, [(2, 1)]), (2, [(1, 1)]), (3, [])]]) \<and>
   nos_amostra [(1, [(2, 1)]), (2, [(1, 1), (3, 1)]), (3, [(2, 1)])] = [1, 2, 3] \<and>
   shortest_path_length [(1, [(2, 1)]), (2, [(1, 1), (3, 1)]), (3, [(2, 1)])] 1 2 = Inr 1 \<and>
   shortest_path_length [(1, [(2, 1)]), (2, [(1, 1)]), (3, [])] 1 2 = Inr 1"
  by code_simp

end
